theory Spec2Isabelle
  imports Main "HOL-Library.Word"
begin

section \<open>Values, errors and the chunked tree\<close>

text \<open>
  The file \<^verbatim>\<open>go/types/set.go\<close> is the facade of the ordered set of Noms. A stored
  value is any type with a total order: \<^verbatim>\<open>Equals\<close> is equality and \<^verbatim>\<open>Less\<close> is
  \<open><\<close> of a \<open>linorder\<close>. Where the source can see a nil \<^verbatim>\<open>Value\<close> the model uses
  \<open>'a option\<close> with \<open>None\<close> for nil. Lengths and indices (\<^verbatim>\<open>uint64\<close>, \<^verbatim>\<open>int\<close>) are
  natural numbers: no collection in memory reaches \<open>2 ^ 63\<close> items.

  A panic of the source is a value of \<open>error\<close>, and a function that can panic returns
  \<open>error + 'a\<close>.

  The functions of \<^verbatim>\<open>set.go\<close> embedded here are \<^verbatim>\<open>newSet\<close>, \<^verbatim>\<open>NewSet\<close>,
  \<^verbatim>\<open>NewStreamingSet\<close>, \<^verbatim>\<open>Diff\<close>, \<^verbatim>\<open>DiffHybrid\<close>, \<^verbatim>\<open>DiffLeftRight\<close>, \<^verbatim>\<open>Len\<close>,
  \<^verbatim>\<open>Empty\<close>, \<^verbatim>\<open>Equals\<close>, \<^verbatim>\<open>Hash\<close>, \<^verbatim>\<open>First\<close>, \<^verbatim>\<open>At\<close>, \<^verbatim>\<open>Has\<close>, \<^verbatim>\<open>Iter\<close>,
  \<^verbatim>\<open>IterAll\<close>, \<^verbatim>\<open>buildSetData\<close>, \<^verbatim>\<open>makeSetLeafChunkFn\<close> and
  \<^verbatim>\<open>newEmptySetSequenceChunker\<close>. The sequence chunker, the cursor, the nodes of the
  tree, the hash and the diff algorithms that they call are in other files of the
  repository; they are modelled from the spec or taken as parameters, as said at each
  definition.
\<close>

datatype error =
    ContractViolation
  | OutOfBounds nat nat
  | InvalidTypeAssertion

text \<open>Modelled from the spec: \<^verbatim>\<open>d.PanicIfTrue\<close> and \<^verbatim>\<open>d.PanicIfFalse\<close> of package
  \<^verbatim>\<open>d\<close>, which is not among the sources (sections 7 and 9: a fatal assertion that
  halts on a violated contract).\<close>

definition PanicIfTrue :: "bool \<Rightarrow> error + unit" where
  "PanicIfTrue b = (if b then Inl ContractViolation else Inr ())"

definition PanicIfFalse :: "bool \<Rightarrow> error + unit" where
  "PanicIfFalse b = (if b then Inr () else Inl ContractViolation)"

text \<open>
  Modelled from the spec: the sequence nodes (section 3, "Sequence node"), which are not
  among the sources. A leaf holds an ordered run of values; a meta node holds an
  ordered run of references \<open>{hash, key, count}\<close>, one per child. The reference of the
  model holds the child node itself where the source holds its hash (the hash is
  computed from the child by the hash function, an external collaborator), the key
  (\<open>None\<close> is \<^verbatim>\<open>emptyKey\<close>) and the count.
\<close>

datatype 'a sequence = Leaf "'a list" | Meta "'a metaTuple list"
and 'a metaTuple = MetaTuple (child: "'a sequence") (key: "'a option") (count: nat)

text \<open>Modelled from the spec: \<^verbatim>\<open>sequenceItem\<close>, the item of a node (section 9, "tree
  node variants"): a value in a leaf, a reference in a meta node.\<close>

datatype 'a sequenceItem = ValueItem 'a | TupleItem "'a metaTuple"

text \<open>Modelled from the spec: \<^verbatim>\<open>hash.Hash\<close>, a digest of fixed width (section 6), here
  of 160 bits.\<close>

type_synonym Hash = "160 word"

text \<open>Modelled from the spec: the store of chunks behind \<^verbatim>\<open>ValueReader\<close>,
  \<^verbatim>\<open>ValueWriter\<close> and \<^verbatim>\<open>ValueReadWriter\<close> (section 6, \<^verbatim>\<open>ChunkStore\<close>), an external
  collaborator: an opaque type, with \<open>None\<close> for nil.\<close>

typedecl ValueReadWriter

text \<open>\<^verbatim>\<open>type Set struct { seq orderedSequence; h *hash.Hash }\<close>: the field \<open>h\<close> is the
  content of the hash cell that \<^verbatim>\<open>h\<close> points to; the zero hash is the empty cell.\<close>

record 'a Set =
  seq :: "'a sequence"
  h :: Hash

definition newSet :: "'a sequence \<Rightarrow> 'a Set" where
  "newSet sq = \<lparr>seq = sq, h = 0\<rparr>"

text \<open>Modelled from the spec: the ordered key (section 3, "OrderedKey"), which is not
  among the sources: the key of a value is the value, keys are ordered as the values
  are, and \<^verbatim>\<open>emptyKey\<close>, the key of no value, is below every other.\<close>

definition newOrderedKey :: "'a \<Rightarrow> 'a option" where
  "newOrderedKey v = Some v"

abbreviation (input) emptyKey :: "'a option" where
  "emptyKey \<equiv> None"

fun keyLess :: "('a::linorder) option \<Rightarrow> 'a option \<Rightarrow> bool" where
  "keyLess None None = False"
| "keyLess None (Some b) = True"
| "keyLess (Some a) None = False"
| "keyLess (Some a) (Some b) = (a < b)"

lemma size_child [termination_simp]:
  "mt \<in> set ts \<Longrightarrow> size (child mt) < Suc (size_list size ts)"
  by (cases mt) (auto dest!: size_list_estimation'[where f = size and y = "size mt"]
      simp: less_Suc_eq_le)

text \<open>Modelled from the spec: \<^verbatim>\<open>seqLen\<close> and \<^verbatim>\<open>numLeaves\<close> of a node (section 4.3:
  \<^verbatim>\<open>Len\<close> is the count of leaf items, read from the cached counts of the references).\<close>

fun seqLen :: "'a sequence \<Rightarrow> nat" where
  "seqLen (Leaf vs) = length vs"
| "seqLen (Meta ts) = length ts"

fun numLeaves :: "'a sequence \<Rightarrow> nat" where
  "numLeaves (Leaf vs) = length vs"
| "numLeaves (Meta ts) = sum_list (map count ts)"

section \<open>Building the data of a set\<close>

text \<open>
  \<^verbatim>\<open>buildSetData\<close>: \<^verbatim>\<open>sort.Stable\<close> of the Go library is a stable sort by \<^verbatim>\<open>Less\<close>;
  \<open>sort\<close> of HOL is the stable insertion sort. The loop keeps \<^verbatim>\<open>last\<close> (here \<open>lastv\<close>) when
  the next value differs from it, and appends the final one.
\<close>

fun uniqueLoop :: "'a \<Rightarrow> 'a list \<Rightarrow> 'a list \<Rightarrow> 'a list" where
  "uniqueLoop lastv [] uniqueSorted = uniqueSorted @ [lastv]"
| "uniqueLoop lastv (v # vs) uniqueSorted =
     uniqueLoop v vs (if v \<noteq> lastv then uniqueSorted @ [lastv] else uniqueSorted)"

definition buildSetData :: "('a::linorder) list \<Rightarrow> 'a list" where
  "buildSetData values =
     (if length values = 0 then []
      else (let sorted_values = sort values
            in uniqueLoop (hd sorted_values) (tl sorted_values) []))"

section \<open>The sequence chunker\<close>

text \<open>
  \<^verbatim>\<open>makeSetLeafChunkFn\<close>: the loop checks that each item is above the one before it
  and copies it into \<open>setData\<close>. The items of a leaf chunker are values, so the type
  assertion \<^verbatim>\<open>item.(Value)\<close> of the source is the identity here.
\<close>

fun leafChunkLoop :: "('a::linorder) option \<Rightarrow> 'a list \<Rightarrow> 'a list \<Rightarrow> error + 'a list" where
  "leafChunkLoop lastValue [] setData = Inr setData"
| "leafChunkLoop lastValue (v # items) setData =
     (case PanicIfFalse (case lastValue of None \<Rightarrow> True | Some l \<Rightarrow> l < v) of
        Inl e \<Rightarrow> Inl e
      | Inr _ \<Rightarrow> leafChunkLoop (Some v) items (setData @ [v]))"

text \<open>Modelled from the spec: \<^verbatim>\<open>newSetLeafSequence\<close>, which is not among the sources:
  the leaf that holds the given values (section 3).\<close>

definition newSetLeafSequence :: "ValueReadWriter option \<Rightarrow> 'a list \<Rightarrow> 'a sequence" where
  "newSetLeafSequence vr setData = Leaf setData"

text \<open>\<^verbatim>\<open>makeSetLeafChunkFn\<close> of the source, with the loop above.\<close>

definition makeSetLeafChunkFn ::
  "ValueReadWriter option \<Rightarrow> nat \<Rightarrow> ('a::linorder) list \<Rightarrow> error + ('a Set \<times> 'a option \<times> nat)" where
  "makeSetLeafChunkFn vr level items =
     (case PanicIfFalse (level = 0) of
        Inl e \<Rightarrow> Inl e
      | Inr _ \<Rightarrow>
         (case leafChunkLoop None items [] of
            Inl e \<Rightarrow> Inl e
          | Inr setData \<Rightarrow>
              Inr (newSet (newSetLeafSequence vr setData),
                   (if length setData > 0 then newOrderedKey (last setData) else emptyKey),
                   length items)))"

text \<open>
  Modelled from the spec: \<^verbatim>\<open>newOrderedMetaSequenceChunkFn\<close>, which is not among the
  sources (section 4.1: on a boundary the buffer is frozen as a node and
  \<open>{hash, key = maxKeyOf(buffer), count}\<close> is computed; items arriving out of order fail
  fast; section 3: the count of a reference is the number of leaf items under it).
\<close>

fun metaChunkLoop :: "('a::linorder) option \<Rightarrow> 'a metaTuple list \<Rightarrow> error + unit" where
  "metaChunkLoop lastKey [] = Inr ()"
| "metaChunkLoop lastKey (mt # items) =
     (case PanicIfFalse (lastKey = emptyKey \<or> keyLess lastKey (key mt)) of
        Inl e \<Rightarrow> Inl e
      | Inr _ \<Rightarrow> metaChunkLoop (key mt) items)"

definition newOrderedMetaSequenceChunkFn ::
  "ValueReadWriter option \<Rightarrow> nat \<Rightarrow> ('a::linorder) metaTuple list \<Rightarrow> error + ('a Set \<times> 'a option \<times> nat)" where
  "newOrderedMetaSequenceChunkFn vr level items =
     (case metaChunkLoop emptyKey items of
        Inl e \<Rightarrow> Inl e
      | Inr _ \<Rightarrow>
          Inr (newSet (Meta items),
               (if length items > 0 then key (last items) else emptyKey),
               sum_list (map count items)))"

text \<open>
  Modelled from the spec: the sequence chunker (section 4.1), which is not among the
  sources. There is one open buffer per level: \<open>sc_current\<close> is the buffer of level 0
  and \<open>sc_parents\<close> holds the buffers of the levels above it, level 1 first. After an
  item is appended to a buffer the boundary function is evaluated on the content of
  the buffer; on a boundary the buffer is closed into a node and the reference of the
  node is fed to the level above by the same logic. The boundary function is not
  visible in the sources (section 9, open question): \<open>lb\<close> is the boundary function of
  level 0 and \<open>mb\<close> that of the levels above, both arbitrary predicates on the content
  of a buffer. A buffer of references closes only when it holds at least two
  references: a node with a single child would repeat itself on every level above,
  and the construction of section 4.1 could not produce a root.

  \<^verbatim>\<open>newEmptySetSequenceChunker\<close> of the source fixes the two chunk functions
  (\<^verbatim>\<open>makeSetLeafChunkFn\<close> for level 0, \<^verbatim>\<open>newOrderedMetaSequenceChunkFn\<close> above), which
  the operations below call directly. The reader and the writer of chunks are
  carried by the chunker; persistence itself is an external collaborator (section 1).
\<close>

record 'a sequenceChunker =
  sc_vr :: "ValueReadWriter option"
  sc_vw :: "ValueReadWriter option"
  sc_current :: "'a list"
  sc_parents :: "'a metaTuple list list"

definition newEmptySetSequenceChunker ::
  "ValueReadWriter option \<Rightarrow> ValueReadWriter option \<Rightarrow> 'a sequenceChunker" where
  "newEmptySetSequenceChunker vr vw =
     \<lparr>sc_vr = vr, sc_vw = vw, sc_current = [], sc_parents = []\<rparr>"

text \<open>Modelled from the spec: closing a buffer (section 4.1): the chunk function of
  the level makes the node, and the reference of the node is returned with it.\<close>

definition createLeafSequence ::
  "ValueReadWriter option \<Rightarrow> ('a::linorder) list \<Rightarrow> error + ('a sequence \<times> 'a metaTuple)" where
  "createLeafSequence vr items =
     (case makeSetLeafChunkFn vr 0 items of
        Inl e \<Rightarrow> Inl e
      | Inr (col, k, n) \<Rightarrow> Inr (seq col, MetaTuple (seq col) k n))"

definition createMetaSequence ::
  "ValueReadWriter option \<Rightarrow> nat \<Rightarrow> ('a::linorder) metaTuple list \<Rightarrow> error + ('a sequence \<times> 'a metaTuple)" where
  "createMetaSequence vr level items =
     (case newOrderedMetaSequenceChunkFn vr level items of
        Inl e \<Rightarrow> Inl e
      | Inr (col, k, n) \<Rightarrow> Inr (seq col, MetaTuple (seq col) k n))"

text \<open>Modelled from the spec: feeding a reference to the buffers of level \<open>level\<close>
  and above (section 4.1).\<close>

fun appendMeta ::
  "(('a::linorder) metaTuple list \<Rightarrow> bool) \<Rightarrow> ValueReadWriter option \<Rightarrow> nat \<Rightarrow> 'a metaTuple \<Rightarrow>
   'a metaTuple list list \<Rightarrow> error + 'a metaTuple list list" where
  "appendMeta mb vr level item [] = Inr [[item]]"
| "appendMeta mb vr level item (cur # ps) =
     (let cur' = cur @ [item] in
      if mb cur' \<and> 1 < length cur' then
        (case createMetaSequence vr level cur' of
           Inl e \<Rightarrow> Inl e
         | Inr (sq, mt) \<Rightarrow>
            (case appendMeta mb vr (level + 1) mt ps of
               Inl e \<Rightarrow> Inl e
             | Inr ps' \<Rightarrow> Inr ([] # ps')))
      else Inr (cur' # ps))"

text \<open>Modelled from the spec: \<^verbatim>\<open>ch.Append(v)\<close> on the chunker of level 0
  (section 4.1).\<close>

definition Append ::
  "(('a::linorder) list \<Rightarrow> bool) \<Rightarrow> ('a metaTuple list \<Rightarrow> bool) \<Rightarrow>
   'a sequenceChunker \<Rightarrow> 'a \<Rightarrow> error + 'a sequenceChunker" where
  "Append lb mb ch item =
     (let cur' = sc_current ch @ [item] in
      if lb cur' then
        (case createLeafSequence (sc_vr ch) cur' of
           Inl e \<Rightarrow> Inl e
         | Inr (sq, mt) \<Rightarrow>
            (case appendMeta mb (sc_vr ch) 1 mt (sc_parents ch) of
               Inl e \<Rightarrow> Inl e
             | Inr ps' \<Rightarrow> Inr (ch\<lparr>sc_current := [], sc_parents := ps'\<rparr>)))
      else Inr (ch\<lparr>sc_current := cur'\<rparr>))"

text \<open>Modelled from the spec: whether a level above holds a reference that has not
  been closed into a node.\<close>

definition anyPending :: "'a metaTuple list list \<Rightarrow> bool" where
  "anyPending ps = list_ex (\<lambda>p. p \<noteq> []) ps"

text \<open>
  Modelled from the spec: the end of the input (section 4.1). Every open level is
  closed bottom-up, each closed node being fed to the level above, until a level holds
  every node of its height. A top level holding a single reference is not the root:
  the tree is collapsed to the first node below it that is a leaf or has more than one
  child.
\<close>

fun walkDown :: "'a metaTuple \<Rightarrow> error + 'a sequence" where
  "walkDown (MetaTuple c k n) =
     (case c of
        Leaf vs \<Rightarrow> Inr c
      | Meta ts \<Rightarrow>
          if 1 < length ts then Inr c
          else (case ts of [] \<Rightarrow> Inl ContractViolation | mt # _ \<Rightarrow> walkDown mt))"

lemma appendMeta_length:
  "appendMeta mb vr level item ps = Inr ps' \<Longrightarrow> ps \<noteq> [] \<Longrightarrow>
     length ps' = length ps \<or> (length ps' = Suc (length ps) \<and> hd ps' = [])"
proof (induction ps arbitrary: level item ps')
  case Nil
  then show ?case by simp
next
  case (Cons cur ps)
  show ?case
  proof (cases "mb (cur @ [item]) \<and> 1 < length (cur @ [item])")
    case False
    with Cons.prems show ?thesis by (auto simp: Let_def)
  next
    case True
    with Cons.prems obtain sq mt ps'' where
      a: "appendMeta mb vr (level + 1) mt ps = Inr ps''" and e: "ps' = [] # ps''"
      by (auto simp: Let_def split: sum.splits)
    show ?thesis
    proof (cases ps)
      case Nil
      with a e show ?thesis by auto
    next
      case (Cons p pp)
      with Cons.IH[OF a] e show ?thesis by auto
    qed
  qed
qed

function doneMeta ::
  "(('a::linorder) metaTuple list \<Rightarrow> bool) \<Rightarrow> ValueReadWriter option \<Rightarrow> nat \<Rightarrow>
   'a metaTuple list \<Rightarrow> 'a metaTuple list list \<Rightarrow> error + 'a sequence" where
  "doneMeta mb vr level cur ps =
     (if ps \<noteq> [] \<and> anyPending ps then
        (if cur \<noteq> [] then
           (case createMetaSequence vr level cur of
              Inl e \<Rightarrow> Inl e
            | Inr (sq, mt) \<Rightarrow>
               (case appendMeta mb vr (level + 1) mt ps of
                  Inl e \<Rightarrow> Inl e
                | Inr ps' \<Rightarrow>
                   (case ps' of
                      [] \<Rightarrow> Inl ContractViolation
                    | p # pp \<Rightarrow> doneMeta mb vr (level + 1) p pp)))
         else (case ps of
                 [] \<Rightarrow> Inl ContractViolation
               | p # pp \<Rightarrow> doneMeta mb vr (level + 1) p pp))
      else if 1 < length cur then
        (case createMetaSequence vr level cur of
           Inl e \<Rightarrow> Inl e
         | Inr (sq, mt) \<Rightarrow> Inr sq)
      else (case cur of
              [] \<Rightarrow> Inl ContractViolation
            | mt # _ \<Rightarrow> walkDown mt))"
  by pat_completeness auto
termination
proof (relation "measure (\<lambda>(mb, vr, level, cur, ps).
                   2 * length ps + (if cur = [] then 0 else 1))", goal_cases)
  case 1
  then show ?case by simp
next
  case 2
  then show ?case by (auto dest!: appendMeta_length)
next
  case 3
  then show ?case by auto
qed

declare doneMeta.simps [simp del]

text \<open>Modelled from the spec: \<^verbatim>\<open>ch.Done()\<close> on the chunker of level 0
  (section 4.1).\<close>

definition Done ::
  "(('a::linorder) metaTuple list \<Rightarrow> bool) \<Rightarrow> 'a sequenceChunker \<Rightarrow> error + 'a sequence" where
  "Done mb ch =
     (if sc_parents ch \<noteq> [] \<and> anyPending (sc_parents ch) then
        (if sc_current ch \<noteq> [] then
           (case createLeafSequence (sc_vr ch) (sc_current ch) of
              Inl e \<Rightarrow> Inl e
            | Inr (sq, mt) \<Rightarrow>
               (case appendMeta mb (sc_vr ch) 1 mt (sc_parents ch) of
                  Inl e \<Rightarrow> Inl e
                | Inr ps' \<Rightarrow>
                   (case ps' of
                      [] \<Rightarrow> Inl ContractViolation
                    | p # pp \<Rightarrow> doneMeta mb (sc_vr ch) 1 p pp)))
         else (case sc_parents ch of
                 [] \<Rightarrow> Inl ContractViolation
               | p # pp \<Rightarrow> doneMeta mb (sc_vr ch) 1 p pp))
      else (case createLeafSequence (sc_vr ch) (sc_current ch) of
              Inl e \<Rightarrow> Inl e
            | Inr (sq, mt) \<Rightarrow> Inr sq))"

section \<open>Constructors of the set\<close>

text \<open>\<^verbatim>\<open>NewSet\<close>: the loop \<^verbatim>\<open>for _, v := range data { ch.Append(v) }\<close> is \<open>appendAll\<close>.\<close>

fun appendAll ::
  "(('a::linorder) list \<Rightarrow> bool) \<Rightarrow> ('a metaTuple list \<Rightarrow> bool) \<Rightarrow>
   'a sequenceChunker \<Rightarrow> 'a list \<Rightarrow> error + 'a sequenceChunker" where
  "appendAll lb mb ch [] = Inr ch"
| "appendAll lb mb ch (v # data) =
     (case Append lb mb ch v of
        Inl e \<Rightarrow> Inl e
      | Inr ch' \<Rightarrow> appendAll lb mb ch' data)"

definition NewSet ::
  "(('a::linorder) list \<Rightarrow> bool) \<Rightarrow> ('a metaTuple list \<Rightarrow> bool) \<Rightarrow> 'a list \<Rightarrow> error + 'a Set" where
  "NewSet lb mb v =
     (let data = buildSetData v;
          ch = newEmptySetSequenceChunker None None
      in case appendAll lb mb ch data of
           Inl e \<Rightarrow> Inl e
         | Inr ch' \<Rightarrow>
            (case Done mb ch' of
               Inl e \<Rightarrow> Inl e
             | Inr sq \<Rightarrow> Inr (newSet sq)))"

text \<open>
  \<^verbatim>\<open>NewStreamingSet\<close>: the input channel is the list of the values sent on it before
  it is closed (a nil value is \<open>None\<close>); the set sent to the output channel is the
  result, and a panic of the goroutine is the error. The variable \<^verbatim>\<open>lastV\<close> is
  declared before the loop and the body of the loop never assigns it, so the loop
  passes it on unchanged. The values of \<open>lastV\<close> and \<open>v\<close> are read (\<open>the\<close>) only
  past the checks that they are not nil.
\<close>

fun streamLoop ::
  "(('a::linorder) list \<Rightarrow> bool) \<Rightarrow> ('a metaTuple list \<Rightarrow> bool) \<Rightarrow>
   'a sequenceChunker \<Rightarrow> 'a option \<Rightarrow> 'a option list \<Rightarrow> error + 'a sequenceChunker" where
  "streamLoop lb mb ch lastV [] = Inr ch"
| "streamLoop lb mb ch lastV (v # vals) =
     (case PanicIfTrue (v = None) of
        Inl e \<Rightarrow> Inl e
      | Inr _ \<Rightarrow>
         (case (if lastV \<noteq> None
                then PanicIfFalse (lastV = None \<or> the lastV < the v)
                else Inr ()) of
            Inl e \<Rightarrow> Inl e
          | Inr _ \<Rightarrow>
             (case Append lb mb ch (the v) of
                Inl e \<Rightarrow> Inl e
              | Inr ch' \<Rightarrow> streamLoop lb mb ch' lastV vals)))"

definition NewStreamingSet ::
  "(('a::linorder) list \<Rightarrow> bool) \<Rightarrow> ('a metaTuple list \<Rightarrow> bool) \<Rightarrow>
   ValueReadWriter option \<Rightarrow> 'a option list \<Rightarrow> error + 'a Set" where
  "NewStreamingSet lb mb vrw vals =
     (let ch = newEmptySetSequenceChunker vrw vrw
      in case streamLoop lb mb ch None vals of
           Inl e \<Rightarrow> Inl e
         | Inr ch' \<Rightarrow>
            (case Done mb ch' of
               Inl e \<Rightarrow> Inl e
             | Inr sq \<Rightarrow> Inr (newSet sq)))"

section \<open>The cursor\<close>

text \<open>
  Modelled from the spec: the cursor (sections 3 and 4.2), which is not among the
  sources. A cursor is a stack of frames \<open>(node, index)\<close>; the head of the list is the
  deepest frame and the last element is the frame of the root. The frame below a
  frame refers to the child selected by its index. The search within a node is the
  binary search of the Go library (\<^verbatim>\<open>sort.Search\<close>) over the keys of the node.
\<close>

type_synonym 'a sequenceCursor = "('a sequence \<times> nat) list"

fun getItem :: "'a sequence \<Rightarrow> nat \<Rightarrow> 'a sequenceItem" where
  "getItem (Leaf vs) i = ValueItem (vs ! i)"
| "getItem (Meta ts) i = TupleItem (ts ! i)"

fun getKey :: "'a sequence \<Rightarrow> nat \<Rightarrow> 'a option" where
  "getKey (Leaf vs) i = newOrderedKey (vs ! i)"
| "getKey (Meta ts) i = key (ts ! i)"

fun isLeaf :: "'a sequence \<Rightarrow> bool" where
  "isLeaf (Leaf vs) = True"
| "isLeaf (Meta ts) = False"

fun valid :: "'a sequenceCursor \<Rightarrow> bool" where
  "valid [] = False"
| "valid ((s, i) # ps) = (i < seqLen s)"

text \<open>Modelled from the spec: \<^verbatim>\<open>current\<close> is the item at the cursor, and a panic
  when the cursor is not valid (section 4.2).\<close>

fun current :: "'a sequenceCursor \<Rightarrow> error + 'a sequenceItem" where
  "current [] = Inl ContractViolation"
| "current ((s, i) # ps) =
     (if i < seqLen s then Inr (getItem s i) else Inl ContractViolation)"

text \<open>The type assertion \<^verbatim>\<open>x.(Value)\<close> of the source.\<close>

fun asValue :: "'a sequenceItem \<Rightarrow> error + 'a" where
  "asValue (ValueItem v) = Inr v"
| "asValue (TupleItem mt) = Inl InvalidTypeAssertion"

text \<open>Modelled from the spec: the child that the deepest frame selects, if there is
  one (section 3, "Cursor").\<close>

fun getChildSequence :: "'a sequenceCursor \<Rightarrow> 'a sequence option" where
  "getChildSequence [] = None"
| "getChildSequence ((Leaf vs, i) # ps) = None"
| "getChildSequence ((Meta ts, i) # ps) =
     (if i < length ts then Some (child (ts ! i)) else None)"

text \<open>\<^verbatim>\<open>sort.Search(n, f)\<close>: the smallest index in \<open>[0, n)\<close> at which \<open>f\<close> is true, found
  by bisection, and \<open>n\<close> when there is none.\<close>

function search :: "nat \<Rightarrow> nat \<Rightarrow> (nat \<Rightarrow> bool) \<Rightarrow> nat" where
  "search i j f =
     (if i < j then
        (let m = (i + j) div 2
         in if \<not> f m then search (m + 1) j f else search i m f)
      else i)"
  by pat_completeness auto
termination
  by (relation "measure (\<lambda>(i, j, f). j - i)") auto

declare search.simps [simp del]

definition sortSearch :: "nat \<Rightarrow> (nat \<Rightarrow> bool) \<Rightarrow> nat" where
  "sortSearch n f = search 0 n f"

text \<open>Modelled from the spec: seeking a key within a node (section 4.2): the
  smallest index whose key is not below the key sought; the result says whether there
  is one.\<close>

definition seekTo :: "('a::linorder) sequence \<Rightarrow> 'a option \<Rightarrow> bool \<Rightarrow> nat \<times> bool" where
  "seekTo s k lastPositionIfNotFound =
     (let i = sortSearch (seqLen s) (\<lambda>i. \<not> keyLess (getKey s i) k);
          i' = (if i = seqLen s \<and> lastPositionIfNotFound then i - 1 else i)
      in (i', i' < seqLen s))"

lemma size_getChildSequence:
  "getChildSequence ((s, i) # ps) = Some cs \<Longrightarrow> size cs < size s"
  by (cases s) (auto split: if_splits intro: size_child)

text \<open>
  Modelled from the spec: \<^verbatim>\<open>newCursorAt(seq, key, forInsertion, last, readAhead)\<close>, the
  descent from the root (section 4.2, \<open>seek\<close>). With the empty key the cursor rests on
  the first item of every node on its path; with a key it rests on the first item
  whose key is not below the key, and stops at the node in which there is none (the
  end position). The spec does not describe the three flags. The calls of \<^verbatim>\<open>set.go\<close>
  embedded here pass false for \<open>forInsertion\<close> and \<open>last\<close>; set, the first keeps the
  cursor of a meta node on its last item when no key is large enough, and the second
  starts on the last item of a node. The flag \<open>readAhead\<close> asks for prefetching and
  does not change the position.
\<close>

function newCursorAtFrom ::
  "('a::linorder) sequenceCursor \<Rightarrow> 'a sequence \<Rightarrow> 'a option \<Rightarrow> bool \<Rightarrow> bool \<Rightarrow>
   'a sequenceCursor" where
  "newCursorAtFrom ps s k forInsertion lst =
     (let start = (if lst then seqLen s - 1 else 0);
          found = (if k \<noteq> emptyKey then seekTo s k (forInsertion \<and> \<not> isLeaf s)
                   else (start, True));
          cur = (s, fst found) # ps
      in if \<not> snd found then cur
         else (case getChildSequence cur of
                 None \<Rightarrow> cur
               | Some cs \<Rightarrow> newCursorAtFrom cur cs k forInsertion lst))"
  by pat_completeness auto
termination
  by (relation "measure (\<lambda>(ps, s, k, forInsertion, lst). size s)")
     (auto dest: size_getChildSequence)

declare newCursorAtFrom.simps [simp del]

definition newCursorAt ::
  "('a::linorder) sequence \<Rightarrow> 'a option \<Rightarrow> bool \<Rightarrow> bool \<Rightarrow> bool \<Rightarrow> 'a sequenceCursor" where
  "newCursorAt s k forInsertion lst readAhead = newCursorAtFrom [] s k forInsertion lst"

definition newCursorAtValue ::
  "('a::linorder) sequence \<Rightarrow> 'a \<Rightarrow> bool \<Rightarrow> bool \<Rightarrow> bool \<Rightarrow> 'a sequenceCursor" where
  "newCursorAtValue s v forInsertion lst readAhead =
     newCursorAt s (newOrderedKey v) forInsertion lst readAhead"

text \<open>
  Modelled from the spec: \<^verbatim>\<open>newCursorAtIndex(seq, idx, readAhead)\<close>, the descent by
  flattened index (section 4.2, \<open>seek\<close> by flattened index). In a meta
  node the cursor takes the first child whose cumulative count of leaves is above the
  index (the last child when there is none) and the index is reduced by the leaves
  before that child; in a leaf the index is the position.
\<close>

definition cumulativeNumberOfLeaves :: "'a metaTuple list \<Rightarrow> nat \<Rightarrow> nat" where
  "cumulativeNumberOfLeaves ts i = sum_list (map count (take (i + 1) ts))"

fun advanceCursorToOffset :: "'a sequence \<Rightarrow> nat \<Rightarrow> nat \<times> nat" where
  "advanceCursorToOffset (Leaf vs) idx = (idx, 0)"
| "advanceCursorToOffset (Meta ts) idx =
     (let i = sortSearch (length ts) (\<lambda>i. idx < cumulativeNumberOfLeaves ts i);
          i' = (if i = length ts then length ts - 1 else i)
      in (i', if i' = 0 then 0 else cumulativeNumberOfLeaves ts (i' - 1)))"

function newCursorAtIndexFrom ::
  "'a sequenceCursor \<Rightarrow> 'a sequence \<Rightarrow> nat \<Rightarrow> 'a sequenceCursor" where
  "newCursorAtIndexFrom ps s idx =
     (let pos = advanceCursorToOffset s idx;
          cur = (s, fst pos) # ps
      in case getChildSequence cur of
           None \<Rightarrow> cur
         | Some cs \<Rightarrow> newCursorAtIndexFrom cur cs (idx - snd pos))"
  by pat_completeness auto
termination
  by (relation "measure (\<lambda>(ps, s, idx). size s)") (auto dest: size_getChildSequence)

declare newCursorAtIndexFrom.simps [simp del]

definition newCursorAtIndex :: "'a sequence \<Rightarrow> nat \<Rightarrow> bool \<Rightarrow> 'a sequenceCursor" where
  "newCursorAtIndex s idx readAhead = newCursorAtIndexFrom [] s idx"

text \<open>
  Modelled from the spec: \<^verbatim>\<open>advance\<close> (section 4.2: crossing node boundaries by
  popping to the parent frame, advancing its index and redescending). Within a node
  the index moves on; at the last item of a node the parent
  frame advances and the cursor descends to the first item of the next child; when
  no frame above can advance, the cursor of the deepest frame moves past its last
  item (the end position) if \<open>allowPastEnd\<close> is set.
\<close>

fun advanceMaybeAllowPastEnd :: "bool \<Rightarrow> 'a sequenceCursor \<Rightarrow> bool \<times> 'a sequenceCursor" where
  "advanceMaybeAllowPastEnd allowPastEnd [] = (False, [])"
| "advanceMaybeAllowPastEnd allowPastEnd ((s, i) # ps) =
     (if i + 1 < seqLen s then (True, (s, i + 1) # ps)
      else if i = seqLen s then (False, (s, i) # ps)
      else (case advanceMaybeAllowPastEnd False ps of
              (True, ps') \<Rightarrow>
                (case getChildSequence ps' of
                   Some cs \<Rightarrow> (True, (cs, 0) # ps')
                 | None \<Rightarrow> (False, (s, if allowPastEnd then i + 1 else i) # ps))
            | (False, ps') \<Rightarrow> (False, (s, if allowPastEnd then i + 1 else i) # ps)))"

definition advance :: "'a sequenceCursor \<Rightarrow> 'a sequenceCursor" where
  "advance cur = snd (advanceMaybeAllowPastEnd True cur)"

text \<open>The measure of the iteration: the number of items and nodes at and after the
  position of a cursor.\<close>

fun weight :: "'a sequence \<Rightarrow> nat" where
  "weight (Leaf vs) = Suc (length vs)"
| "weight (Meta ts) = Suc (sum_list (map (\<lambda>mt. weight (child mt)) ts))"

fun weightFrom :: "'a sequence \<Rightarrow> nat \<Rightarrow> nat" where
  "weightFrom (Leaf vs) i = length vs - i"
| "weightFrom (Meta ts) i = sum_list (map (\<lambda>mt. weight (child mt)) (drop i ts))"

fun weightAfter :: "'a sequenceCursor \<Rightarrow> nat" where
  "weightAfter [] = 0"
| "weightAfter ((s, i) # ps) = weightFrom s (Suc i) + weightAfter ps"

fun remaining :: "'a sequenceCursor \<Rightarrow> nat" where
  "remaining [] = 0"
| "remaining ((s, i) # ps) = weightFrom s i + weightAfter ps"

lemma weight_pos: "0 < weight s"
  by (cases s) auto

lemma weightFrom_Suc_less: "i < seqLen s \<Longrightarrow> weightFrom s (Suc i) < weightFrom s i"
proof (cases s)
  case (Leaf vs)
  assume "i < seqLen s"
  with Leaf show ?thesis by auto
next
  case (Meta ts)
  assume "i < seqLen s"
  with Meta have "drop i ts = ts ! i # drop (Suc i) ts"
    by (simp add: Cons_nth_drop_Suc)
  with Meta show ?thesis by (simp add: weight_pos)
qed

lemma weightFrom_Suc_le: "weightFrom s (Suc i) \<le> weightFrom s i"
proof (cases "i < seqLen s")
  case True
  then show ?thesis using weightFrom_Suc_less[of i s] by simp
next
  case False
  then show ?thesis by (cases s) auto
qed

lemma weight_getChildSequence:
  "getChildSequence ps = Some cs \<Longrightarrow> weightFrom cs 0 + weightAfter ps < remaining ps"
proof (cases ps)
  case Nil
  assume "getChildSequence ps = Some cs"
  with Nil show ?thesis by simp
next
  case (Cons f pp)
  assume g: "getChildSequence ps = Some cs"
  obtain s j where f: "f = (s, j)" by (cases f)
  from g Cons f obtain ts where s: "s = Meta ts" and j: "j < length ts"
    and cs: "cs = child (ts ! j)"
    by (cases s) (auto split: if_splits)
  from j have d: "drop j ts = ts ! j # drop (Suc j) ts"
    by (simp add: Cons_nth_drop_Suc)
  have "weightFrom cs 0 < weight cs" by (cases cs) auto
  with Cons f s cs d show ?thesis by simp
qed

lemma advance_remaining:
  "advanceMaybeAllowPastEnd a cur = (True, cur') \<Longrightarrow> remaining cur' \<le> weightAfter cur"
proof (induction cur arbitrary: a cur')
  case Nil
  then show ?case by simp
next
  case (Cons f ps)
  obtain s i where f: "f = (s, i)" by (cases f)
  show ?case
  proof (cases "i + 1 < seqLen s")
    case True
    with Cons.prems f show ?thesis by auto
  next
    case False
    with Cons.prems f obtain ps' cs where
      a: "advanceMaybeAllowPastEnd False ps = (True, ps')"
      and g: "getChildSequence ps' = Some cs" and c: "cur' = (cs, 0) # ps'"
      by (auto split: if_splits prod.splits bool.splits option.splits)
    from Cons.IH[OF a] have "remaining ps' \<le> weightAfter ps" .
    with weight_getChildSequence[OF g] c f show ?thesis by simp
  qed
qed

lemma advance_decreases: "valid cur \<Longrightarrow> remaining (advance cur) < remaining cur"
proof (cases cur)
  case Nil
  assume "valid cur"
  with Nil show ?thesis by simp
next
  case (Cons f ps)
  assume v: "valid cur"
  obtain s i where f: "f = (s, i)" by (cases f)
  from v Cons f have i: "i < seqLen s" by simp
  obtain b cur' where r: "advanceMaybeAllowPastEnd True cur = (b, cur')"
    by (cases "advanceMaybeAllowPastEnd True cur")
  show ?thesis
  proof (cases b)
    case True
    with r have "remaining cur' \<le> weightAfter cur" by (auto dest: advance_remaining)
    also have "\<dots> < remaining cur" using Cons f weightFrom_Suc_less[OF i] by simp
    finally show ?thesis using r by (simp add: advance_def)
  next
    case False
    with r Cons f i have "cur' = (s, Suc i) # ps"
      by (auto split: if_splits prod.splits bool.splits option.splits)
    with r Cons f weightFrom_Suc_less[OF i] show ?thesis by (simp add: advance_def)
  qed
qed

text \<open>
  Modelled from the spec: \<^verbatim>\<open>cur.iter(cb)\<close> (section 4.3: visits the leaf items in
  order, the callback may request an early stop), the loop
  \<^verbatim>\<open>for cur.valid() { if cb(item) { return }; cur.advance() }\<close>.
  The callback of the model threads the state that the closure of the source
  captures, and returns an error when the closure panics.
\<close>

function iter ::
  "'a sequenceCursor \<Rightarrow> ('a sequenceItem \<Rightarrow> 's \<Rightarrow> error + (bool \<times> 's)) \<Rightarrow> 's \<Rightarrow> error + 's" where
  "iter cur cb st =
     (if valid cur then
        (case current cur of
           Inl e \<Rightarrow> Inl e
         | Inr item \<Rightarrow>
            (case cb item st of
               Inl e \<Rightarrow> Inl e
             | Inr (stop, st') \<Rightarrow> if stop then Inr st' else iter (advance cur) cb st'))
      else Inr st)"
  by pat_completeness auto
termination
  by (relation "measure (\<lambda>(cur, cb, st). remaining cur)") (auto intro: advance_decreases)

declare iter.simps [simp del]

section \<open>The operations of the set\<close>

definition Len :: "'a Set \<Rightarrow> nat" where
  "Len s = numLeaves (seq s)"

definition Empty :: "'a Set \<Rightarrow> bool" where
  "Empty s = (Len s = 0)"

text \<open>
  Modelled from the spec: \<^verbatim>\<open>IsEmpty\<close> of a hash and \<^verbatim>\<open>getHash\<close>, which are not among
  the sources. The empty hash is the zero digest. \<^verbatim>\<open>getHash\<close> is the hash of the
  encoding of the set; both the encoding and the hash function are external
  collaborators (section 6), and their composition on the tree of the set is the
  parameter \<open>hf\<close>.
\<close>

definition IsEmpty :: "Hash \<Rightarrow> bool" where
  "IsEmpty x = (x = 0)"

definition getHash :: "('a sequence \<Rightarrow> Hash) \<Rightarrow> 'a Set \<Rightarrow> Hash" where
  "getHash hf s = hf (seq s)"

text \<open>\<^verbatim>\<open>Hash\<close> fills the hash cell on first use; the result is the hash together with
  the set whose cell is filled. \<^verbatim>\<open>Equals\<close> compares the hashes of the two sets.\<close>

definition Hash :: "('a sequence \<Rightarrow> Hash) \<Rightarrow> 'a Set \<Rightarrow> Hash \<times> 'a Set" where
  "Hash hf s =
     (if IsEmpty (h s) then (getHash hf s, s\<lparr>h := getHash hf s\<rparr>) else (h s, s))"

definition Equals :: "('a sequence \<Rightarrow> Hash) \<Rightarrow> 'a Set \<Rightarrow> 'a Set \<Rightarrow> bool" where
  "Equals hf s other = (fst (Hash hf s) = fst (Hash hf other))"

text \<open>Modelled from the spec: the change events (section 4.6:
  \<open>{kind: Added | Removed | Changed, value}\<close>), which are not among the sources.\<close>

datatype DiffChangeType = DiffChangeAdded | DiffChangeRemoved | DiffChangeModified

datatype 'a ValueChanged = ValueChanged DiffChangeType 'a

text \<open>
  The three diff entry points. The events sent to the channel \<^verbatim>\<open>changes\<close> are the
  result; the three algorithms (\<^verbatim>\<open>orderedSequenceDiffTopDown\<close>,
  \<^verbatim>\<open>orderedSequenceDiffBest\<close>, \<^verbatim>\<open>orderedSequenceDiffLeftRight\<close>) are not among the
  sources and are parameters, functions from the two trees to the events they send.
  The cancellation channel \<^verbatim>\<open>closeChan\<close> is only passed on to the algorithm.
\<close>

definition Diff ::
  "('a sequence \<Rightarrow> Hash) \<Rightarrow> ('a sequence \<Rightarrow> 'a sequence \<Rightarrow> 'a ValueChanged list) \<Rightarrow>
   'a Set \<Rightarrow> 'a Set \<Rightarrow> 'a ValueChanged list" where
  "Diff hf orderedSequenceDiffTopDown s lst =
     (if Equals hf s lst then []
      else orderedSequenceDiffTopDown (seq lst) (seq s))"

definition DiffHybrid ::
  "('a sequence \<Rightarrow> Hash) \<Rightarrow> ('a sequence \<Rightarrow> 'a sequence \<Rightarrow> 'a ValueChanged list) \<Rightarrow>
   'a Set \<Rightarrow> 'a Set \<Rightarrow> 'a ValueChanged list" where
  "DiffHybrid hf orderedSequenceDiffBest s lst =
     (if Equals hf s lst then []
      else orderedSequenceDiffBest (seq lst) (seq s))"

definition DiffLeftRight ::
  "('a sequence \<Rightarrow> Hash) \<Rightarrow> ('a sequence \<Rightarrow> 'a sequence \<Rightarrow> 'a ValueChanged list) \<Rightarrow>
   'a Set \<Rightarrow> 'a Set \<Rightarrow> 'a ValueChanged list" where
  "DiffLeftRight hf orderedSequenceDiffLeftRight s lst =
     (if Equals hf s lst then []
      else orderedSequenceDiffLeftRight (seq lst) (seq s))"

text \<open>\<^verbatim>\<open>First\<close>: a nil result is \<open>None\<close>.\<close>

definition First :: "('a::linorder) Set \<Rightarrow> error + 'a option" where
  "First s =
     (let cur = newCursorAt (seq s) emptyKey False False False
      in if \<not> valid cur then Inr None
         else (case current cur of
                 Inl e \<Rightarrow> Inl e
               | Inr item \<Rightarrow>
                  (case asValue item of
                     Inl e \<Rightarrow> Inl e
                   | Inr v \<Rightarrow> Inr (Some v))))"

definition At :: "'a Set \<Rightarrow> nat \<Rightarrow> error + 'a" where
  "At s idx =
     (if idx \<ge> Len s then Inl (OutOfBounds idx (Len s))
      else (let cur = newCursorAtIndex (seq s) idx False
            in case current cur of
                 Inl e \<Rightarrow> Inl e
               | Inr item \<Rightarrow> asValue item))"

text \<open>\<^verbatim>\<open>Has\<close>: the conjunction of the source evaluates \<^verbatim>\<open>cur.current()\<close> only when the
  cursor is valid.\<close>

definition Has :: "('a::linorder) Set \<Rightarrow> 'a \<Rightarrow> error + bool" where
  "Has s v =
     (let cur = newCursorAtValue (seq s) v False False False
      in if \<not> valid cur then Inr False
         else (case current cur of
                 Inl e \<Rightarrow> Inl e
               | Inr item \<Rightarrow>
                  (case asValue item of
                     Inl e \<Rightarrow> Inl e
                   | Inr x \<Rightarrow> Inr (x = v))))"

text \<open>\<^verbatim>\<open>Iter\<close> stops when the callback returns true; \<^verbatim>\<open>IterAll\<close> visits every
  item.\<close>

definition Iter :: "('a::linorder) Set \<Rightarrow> ('a \<Rightarrow> 's \<Rightarrow> bool \<times> 's) \<Rightarrow> 's \<Rightarrow> error + 's" where
  "Iter s cb st =
     (let cur = newCursorAt (seq s) emptyKey False False False
      in iter cur (\<lambda>item st. case asValue item of
                                 Inl e \<Rightarrow> Inl e
                               | Inr v \<Rightarrow> Inr (cb v st)) st)"

definition IterAll :: "('a::linorder) Set \<Rightarrow> ('a \<Rightarrow> 's \<Rightarrow> 's) \<Rightarrow> 's \<Rightarrow> error + 's" where
  "IterAll s cb st =
     (let cur = newCursorAt (seq s) emptyKey False False True
      in iter cur (\<lambda>item st. case asValue item of
                                 Inl e \<Rightarrow> Inl e
                               | Inr v \<Rightarrow> Inr (False, cb v st)) st)"

section \<open>Notions of the statements\<close>

text \<open>The leaf items of a tree, left to right.\<close>

fun leaves :: "'a sequence \<Rightarrow> 'a list" where
  "leaves (Leaf vs) = vs"
| "leaves (Meta ts) = concat (map (\<lambda>mt. leaves (child mt)) ts)"

text \<open>The hash cell of a set is valid when it is empty or holds the hash of the set:
  \<^verbatim>\<open>newSet\<close> creates it empty and only \<^verbatim>\<open>Hash\<close> writes to it.\<close>

definition hashCellValid :: "('a sequence \<Rightarrow> Hash) \<Rightarrow> 'a Set \<Rightarrow> bool" where
  "hashCellValid hf s = (h s = 0 \<or> h s = getHash hf s)"

text \<open>
  A tree is well formed at height \<open>n\<close> when its leaves are at depth \<open>n\<close>, no meta
  node is empty, and every reference has a child with leaf items, the number of
  these items as its count and the last of them as its key (section 3 of the spec).
\<close>

fun wfSeq :: "nat \<Rightarrow> 'a sequence \<Rightarrow> bool" where
  "wfSeq n (Leaf vs) = (n = 0)"
| "wfSeq n (Meta ts) =
     (0 < n \<and> ts \<noteq> [] \<and>
      (\<forall>mt \<in> set ts. wfSeq (n - 1) (child mt) \<and> leaves (child mt) \<noteq> [] \<and>
          count mt = length (leaves (child mt)) \<and>
          key mt = Some (last (leaves (child mt)))))"

definition wfTuple :: "nat \<Rightarrow> 'a metaTuple \<Rightarrow> bool" where
  "wfTuple n mt =
     (wfSeq n (child mt) \<and> leaves (child mt) \<noteq> [] \<and>
      count mt = length (leaves (child mt)) \<and> key mt = Some (last (leaves (child mt))))"

text \<open>The leaf items under a buffer of references, and under the buffers of the
  levels above level 0, the highest level first.\<close>

definition bufLeaves :: "'a metaTuple list \<Rightarrow> 'a list" where
  "bufLeaves ts = concat (map (\<lambda>mt. leaves (child mt)) ts)"

fun levelItems :: "'a metaTuple list list \<Rightarrow> 'a list" where
  "levelItems [] = []"
| "levelItems (p # ps) = levelItems ps @ bufLeaves p"

fun wfLevels :: "nat \<Rightarrow> 'a metaTuple list list \<Rightarrow> bool" where
  "wfLevels n [] = True"
| "wfLevels n (p # ps) = ((\<forall>mt \<in> set p. wfTuple n mt) \<and> wfLevels (Suc n) ps)"

text \<open>The items that a chunker has taken so far, and its invariant on an ascending
  stream.\<close>

definition chunkerItems :: "'a sequenceChunker \<Rightarrow> 'a list" where
  "chunkerItems ch = levelItems (sc_parents ch) @ sc_current ch"

definition chunkerInv :: "('a::linorder) sequenceChunker \<Rightarrow> bool" where
  "chunkerInv ch = (wfLevels 0 (sc_parents ch) \<and> sorted_wrt (<) (chunkerItems ch))"

text \<open>
  The leaf items at and after a position: \<open>itemsFrom s i\<close> are those under the items
  \<open>i, i + 1, \<dots>\<close> of the node \<open>s\<close>; \<open>rest cur\<close> are those from the position of the
  cursor to the end of the tree, and \<open>restAfter cur\<close> those after the position.
\<close>

fun itemsFrom :: "'a sequence \<Rightarrow> nat \<Rightarrow> 'a list" where
  "itemsFrom (Leaf vs) i = drop i vs"
| "itemsFrom (Meta ts) i = bufLeaves (drop i ts)"

fun restAfter :: "'a sequenceCursor \<Rightarrow> 'a list" where
  "restAfter [] = []"
| "restAfter ((s, i) # ps) = itemsFrom s (Suc i) @ restAfter ps"

fun rest :: "'a sequenceCursor \<Rightarrow> 'a list" where
  "rest [] = []"
| "rest ((s, i) # ps) = itemsFrom s i @ restAfter ps"

text \<open>A cursor is well formed when the node of its deepest frame has height \<open>n\<close>, the
  nodes of its frames are well formed, and each frame but the last refers to the
  child selected by the frame above it.\<close>

fun wfCursor :: "nat \<Rightarrow> 'a sequenceCursor \<Rightarrow> bool" where
  "wfCursor n [] = True"
| "wfCursor n ((s, i) # ps) =
     (wfSeq n s \<and> (ps = [] \<or> getChildSequence ps = Some s) \<and> wfCursor (Suc n) ps)"

text \<open>The iteration over a list of values, with the callback of \<open>iter\<close> and with the
  callbacks of \<^verbatim>\<open>Iter\<close> and \<^verbatim>\<open>IterAll\<close>.\<close>

fun iterList ::
  "('a sequenceItem \<Rightarrow> 's \<Rightarrow> error + (bool \<times> 's)) \<Rightarrow> 'a list \<Rightarrow> 's \<Rightarrow> error + 's" where
  "iterList cb [] st = Inr st"
| "iterList cb (v # vs) st =
     (case cb (ValueItem v) st of
        Inl e \<Rightarrow> Inl e
      | Inr (stop, st') \<Rightarrow> if stop then Inr st' else iterList cb vs st')"

fun iterValues :: "('a \<Rightarrow> 's \<Rightarrow> bool \<times> 's) \<Rightarrow> 'a list \<Rightarrow> 's \<Rightarrow> 's" where
  "iterValues cb [] st = st"
| "iterValues cb (v # vs) st =
     (case cb v st of (stop, st') \<Rightarrow> if stop then st' else iterValues cb vs st')"

text \<open>Boundary functions for the examples: a leaf chunk closes after an even value,
  and a chunk of references closes after a reference whose key is a multiple of
  four.\<close>

definition evenBoundary :: "nat list \<Rightarrow> bool" where
  "evenBoundary buf = (buf \<noteq> [] \<and> even (last buf))"

definition keyBoundary :: "nat metaTuple list \<Rightarrow> bool" where
  "keyBoundary buf =
     (buf \<noteq> [] \<and> (case key (last buf) of None \<Rightarrow> False | Some k \<Rightarrow> k mod 4 = 0))"

text \<open>Two sets for the examples: the set that \<^verbatim>\<open>NewSet(5, 2, 7)\<close> builds with the
  boundary functions of the examples, and a tree of the same shape whose leaf items
  are not ascending.\<close>

definition exampleSet :: "nat Set" where
  "exampleSet =
     newSet (Meta [MetaTuple (Leaf [2]) (Some 2) 1, MetaTuple (Leaf [5, 7]) (Some 7) 2])"

definition unorderedSet :: "nat Set" where
  "unorderedSet =
     newSet (Meta [MetaTuple (Leaf [2]) (Some 2) 1, MetaTuple (Leaf [1, 3]) (Some 3) 2])"

text \<open>A hash function for the examples: it depends on the length of the root node
  only, so that trees of different content have the same hash.\<close>

definition lengthHash :: "'a sequence \<Rightarrow> Hash" where
  "lengthHash sq = 1 + of_nat (seqLen sq)"

section \<open>The data of a set is the sorted list of the distinct values\<close>

lemma uniqueLoop_remdups_adj:
  "uniqueLoop lastv vs acc = acc @ remdups_adj (lastv # vs)"
  by (induction vs arbitrary: lastv acc) auto

lemma buildSetData_remdups_adj: "buildSetData vs = remdups_adj (sort vs)"
proof (cases "sort vs")
  case Nil
  then have "vs = []" by (metis length_sort length_0_conv)
  then show ?thesis by (simp add: buildSetData_def)
next
  case (Cons x xs)
  then have "vs \<noteq> []" by auto
  with Cons show ?thesis by (simp add: buildSetData_def uniqueLoop_remdups_adj)
qed

lemma strict_remdups_adj: "sorted xs \<Longrightarrow> sorted_wrt (<) (remdups_adj xs)"
proof (induction xs rule: remdups_adj.induct)
  case (3 x y xs)
  then show ?case by (cases "x = y") (auto simp: less_le)
qed auto

lemma buildSetData_strict: "sorted_wrt (<) (buildSetData vs)"
  by (simp add: buildSetData_remdups_adj strict_remdups_adj)

lemma set_buildSetData: "set (buildSetData vs) = set vs"
  by (simp add: buildSetData_remdups_adj)

lemma buildSetData_sorted_list_of_set: "buildSetData vs = sorted_list_of_set (set vs)"
  using buildSetData_strict[of vs] set_buildSetData[of vs]
  by (metis sorted_list_of_set.idem_if_sorted_distinct strict_sorted_iff subset_refl)

lemma buildSetData_idem: "sorted_wrt (<) vs \<Longrightarrow> buildSetData vs = vs"
  by (simp add: buildSetData_sorted_list_of_set strict_sorted_iff sorted_list_of_set.idem_if_sorted_distinct)

lemma length_buildSetData: "length (buildSetData vs) = card (set vs)"
  by (simp add: buildSetData_sorted_list_of_set)

section \<open>The chunk functions on ascending items\<close>

lemma wfSeq_Meta: "wfSeq (Suc n) (Meta ts) = (ts \<noteq> [] \<and> (\<forall>mt \<in> set ts. wfTuple n mt))"
  by (auto simp: wfTuple_def)

lemma leaves_Meta: "leaves (Meta ts) = bufLeaves ts"
  by (simp add: bufLeaves_def)

lemma bufLeaves_simps [simp]:
  "bufLeaves [] = []"
  "bufLeaves (mt # ts) = leaves (child mt) @ bufLeaves ts"
  "bufLeaves (ts @ ts') = bufLeaves ts @ bufLeaves ts'"
  by (simp_all add: bufLeaves_def)

lemma leafChunkLoop_sorted:
  "sorted_wrt (<) items \<Longrightarrow> (case lastValue of None \<Rightarrow> True | Some l \<Rightarrow> \<forall>x \<in> set items. l < x) \<Longrightarrow>
   leafChunkLoop lastValue items setData = Inr (setData @ items)"
proof (induction items arbitrary: lastValue setData)
  case Nil
  then show ?case by simp
next
  case (Cons v items)
  then show ?case by (auto simp: PanicIfFalse_def split: option.splits)
qed

lemma createLeafSequence_sorted:
  assumes "sorted_wrt (<) items"
  shows "createLeafSequence vr items =
           Inr (Leaf items, MetaTuple (Leaf items)
                  (if items = [] then None else Some (last items)) (length items))"
  using leafChunkLoop_sorted[OF assms, of None "[]"]
  by (simp add: createLeafSequence_def makeSetLeafChunkFn_def PanicIfFalse_def newSet_def
      newSetLeafSequence_def newOrderedKey_def)

lemma wfTuple_leaf:
  "items \<noteq> [] \<Longrightarrow> wfTuple 0 (MetaTuple (Leaf items) (Some (last items)) (length items))"
  by (simp add: wfTuple_def)

lemma metaChunkLoop_sorted:
  "\<forall>mt \<in> set items. wfTuple n mt \<Longrightarrow> sorted_wrt (<) (pre @ bufLeaves items) \<Longrightarrow>
   lastKey = None \<or> (pre \<noteq> [] \<and> lastKey = Some (last pre)) \<Longrightarrow>
   metaChunkLoop lastKey items = Inr ()"
proof (induction items arbitrary: lastKey pre)
  case Nil
  then show ?case by simp
next
  case (Cons mt items)
  let ?l = "leaves (child mt)"
  from Cons.prems(1) have ne: "?l \<noteq> []" and k: "key mt = Some (last ?l)"
    by (auto simp: wfTuple_def)
  have chk: "lastKey = None \<or> keyLess lastKey (key mt)"
  proof (cases "lastKey = None")
    case False
    with Cons.prems(3) have p: "pre \<noteq> []" "lastKey = Some (last pre)" by auto
    from Cons.prems(2) have "\<forall>x \<in> set pre. \<forall>y \<in> set ?l. x < y"
      by (auto simp: sorted_wrt_append)
    with p ne have "last pre < last ?l" by (meson last_in_set)
    with p k show ?thesis by simp
  qed simp
  have "metaChunkLoop (key mt) items = Inr ()"
  proof (rule Cons.IH[where pre = "pre @ ?l"])
    show "\<forall>mt \<in> set items. wfTuple n mt" using Cons.prems(1) by simp
    show "sorted_wrt (<) ((pre @ ?l) @ bufLeaves items)" using Cons.prems(2) by simp
    show "key mt = None \<or> pre @ ?l \<noteq> [] \<and> key mt = Some (last (pre @ ?l))"
      using ne k by simp
  qed
  with chk show ?case by (auto simp: PanicIfFalse_def)
qed

lemma sum_count_bufLeaves:
  "\<forall>mt \<in> set items. wfTuple n mt \<Longrightarrow> sum_list (map count items) = length (bufLeaves items)"
  by (induction items) (auto simp: wfTuple_def)

lemma bufLeaves_nonempty:
  "\<forall>mt \<in> set items. wfTuple n mt \<Longrightarrow> items \<noteq> [] \<Longrightarrow> bufLeaves items \<noteq> []"
  by (cases items) (auto simp: wfTuple_def)

lemma last_bufLeaves:
  "\<forall>mt \<in> set items. wfTuple n mt \<Longrightarrow> items \<noteq> [] \<Longrightarrow>
   last (bufLeaves items) = last (leaves (child (last items)))"
proof (induction items)
  case Nil
  then show ?case by simp
next
  case (Cons mt items)
  then show ?case
    by (cases "items = []") (auto simp: bufLeaves_nonempty[where n = n])
qed

lemma createMetaSequence_sorted:
  assumes wf: "\<forall>mt \<in> set items. wfTuple n mt" and ne: "items \<noteq> []"
    and so: "sorted_wrt (<) (bufLeaves items)"
  shows "\<exists>mt. createMetaSequence vr level items = Inr (Meta items, mt) \<and>
              wfTuple (Suc n) mt \<and> leaves (child mt) = bufLeaves items \<and> child mt = Meta items"
proof -
  from metaChunkLoop_sorted[OF wf, of "[]" None] so
  have m: "metaChunkLoop None items = Inr ()" by simp
  let ?mt = "MetaTuple (Meta items) (key (last items)) (sum_list (map count items))"
  from m ne have c: "createMetaSequence vr level items = Inr (Meta items, ?mt)"
    by (simp add: createMetaSequence_def newOrderedMetaSequenceChunkFn_def newSet_def)
  from ne wf have "wfTuple n (last items)" by simp
  then have k: "key (last items) = Some (last (leaves (child (last items))))"
    by (simp add: wfTuple_def)
  have "wfTuple (Suc n) ?mt"
    unfolding wfTuple_def
    using wf ne k sum_count_bufLeaves[OF wf] bufLeaves_nonempty[OF wf ne] last_bufLeaves[OF wf ne]
    by (simp add: leaves_Meta wfTuple_def del: leaves.simps) 
  with c show ?thesis by (auto simp: leaves_Meta simp del: leaves.simps)
qed

section \<open>The chunker on an ascending stream\<close>

declare wfSeq.simps(2) [simp del]

lemma wfSeq_Meta_0 [simp]: "wfSeq 0 (Meta ts) = False"
  by (simp add: wfSeq.simps(2))

lemma anyPending_simps [simp]:
  "anyPending [] = False"
  "anyPending (p # ps) = (p \<noteq> [] \<or> anyPending ps)"
  by (simp_all add: anyPending_def)

lemma levelItems_not_pending: "\<not> anyPending ps \<Longrightarrow> levelItems ps = []"
  by (induction ps) auto

lemma appendMeta_sorted:
  "wfLevels n ps \<Longrightarrow> wfTuple n mt \<Longrightarrow> sorted_wrt (<) (levelItems ps @ leaves (child mt)) \<Longrightarrow>
   \<exists>ps'. appendMeta mb vr level mt ps = Inr ps' \<and> wfLevels n ps' \<and>
         levelItems ps' = levelItems ps @ leaves (child mt) \<and> anyPending ps'"
proof (induction ps arbitrary: n mt level)
  case Nil
  then show ?case by (simp add: wfTuple_def)
next
  case (Cons cur ps)
  let ?cur = "cur @ [mt]"
  have wfc: "\<forall>t \<in> set ?cur. wfTuple n t" using Cons.prems by simp
  show ?case
  proof (cases "mb ?cur \<and> 1 < length ?cur")
    case False
    then have "appendMeta mb vr level mt (cur # ps) = Inr (?cur # ps)"
      by (auto simp: Let_def)
    with Cons.prems wfc show ?thesis by simp
  next
    case True
    have "sorted_wrt (<) (bufLeaves ?cur)"
      using Cons.prems(3) by (simp add: sorted_wrt_append)
    from createMetaSequence_sorted[OF wfc _ this, of vr level]
    obtain mt' where c: "createMetaSequence vr level ?cur = Inr (Meta ?cur, mt')"
      and w: "wfTuple (Suc n) mt'" and l: "leaves (child mt') = bufLeaves ?cur"
      by auto
    have "\<exists>ps'. appendMeta mb vr (level + 1) mt' ps = Inr ps' \<and> wfLevels (Suc n) ps' \<and>
         levelItems ps' = levelItems ps @ leaves (child mt') \<and> anyPending ps'"
    proof (rule Cons.IH[OF _ w])
      show "wfLevels (Suc n) ps" using Cons.prems(1) by simp
      show "sorted_wrt (<) (levelItems ps @ leaves (child mt'))"
        using Cons.prems(3) l by simp
    qed
    then obtain ps' where a: "appendMeta mb vr (level + 1) mt' ps = Inr ps'"
      and w': "wfLevels (Suc n) ps'"
      and l': "levelItems ps' = levelItems ps @ leaves (child mt')" and p': "anyPending ps'"
      by auto
    from True c a have "appendMeta mb vr level mt (cur # ps) = Inr ([] # ps')"
      by (simp add: Let_def)
    with w' l' p' l show ?thesis by simp
  qed
qed

lemma Append_sorted:
  assumes inv: "chunkerInv ch" and so: "sorted_wrt (<) (chunkerItems ch @ [v])"
  shows "\<exists>ch'. Append lb mb ch v = Inr ch' \<and> chunkerInv ch' \<and>
               chunkerItems ch' = chunkerItems ch @ [v]"
proof (cases "lb (sc_current ch @ [v])")
  case False
  then have "Append lb mb ch v = Inr (ch\<lparr>sc_current := sc_current ch @ [v]\<rparr>)"
    by (simp add: Append_def Let_def)
  with inv so show ?thesis by (simp add: chunkerInv_def chunkerItems_def)
next
  case True
  let ?cur = "sc_current ch @ [v]"
  let ?mt = "MetaTuple (Leaf ?cur) (Some (last ?cur)) (length ?cur)"
  have sc: "sorted_wrt (<) ?cur"
    using so by (simp add: chunkerItems_def sorted_wrt_append)
  from createLeafSequence_sorted[OF sc, of "sc_vr ch"]
  have c: "createLeafSequence (sc_vr ch) ?cur = Inr (Leaf ?cur, ?mt)" by simp
  have w: "wfTuple 0 ?mt" by (rule wfTuple_leaf) simp
  have "\<exists>ps'. appendMeta mb (sc_vr ch) 1 ?mt (sc_parents ch) = Inr ps' \<and> wfLevels 0 ps' \<and>
         levelItems ps' = levelItems (sc_parents ch) @ leaves (child ?mt) \<and> anyPending ps'"
  proof (rule appendMeta_sorted[OF _ w])
    show "wfLevels 0 (sc_parents ch)" using inv by (simp add: chunkerInv_def)
    show "sorted_wrt (<) (levelItems (sc_parents ch) @ leaves (child ?mt))"
      using so by (simp add: chunkerItems_def)
  qed
  then obtain ps' where a: "appendMeta mb (sc_vr ch) 1 ?mt (sc_parents ch) = Inr ps'"
    and w': "wfLevels 0 ps'"
    and l': "levelItems ps' = levelItems (sc_parents ch) @ leaves (child ?mt)"
    by auto
  from True c a have "Append lb mb ch v = Inr (ch\<lparr>sc_current := [], sc_parents := ps'\<rparr>)"
    by (simp add: Append_def Let_def)
  with w' l' so show ?thesis by (simp add: chunkerInv_def chunkerItems_def)
qed

lemma appendAll_sorted:
  "chunkerInv ch \<Longrightarrow> sorted_wrt (<) (chunkerItems ch @ vs) \<Longrightarrow>
   \<exists>ch'. appendAll lb mb ch vs = Inr ch' \<and> chunkerInv ch' \<and>
         chunkerItems ch' = chunkerItems ch @ vs"
proof (induction vs arbitrary: ch)
  case Nil
  then show ?case by simp
next
  case (Cons v vs)
  have "sorted_wrt (<) (chunkerItems ch @ [v])"
    using Cons.prems(2) by (auto simp: sorted_wrt_append)
  from Append_sorted[OF Cons.prems(1) this, of lb mb]
  obtain ch' where a: "Append lb mb ch v = Inr ch'" and i: "chunkerInv ch'"
    and l: "chunkerItems ch' = chunkerItems ch @ [v]" by auto
  from Cons.IH[OF i, of ] Cons.prems(2) l
  obtain ch'' where "appendAll lb mb ch' vs = Inr ch''" "chunkerInv ch''"
    "chunkerItems ch'' = chunkerItems ch' @ vs" by auto
  with a l show ?case by simp
qed

lemma chunkerInv_empty:
  "chunkerInv (newEmptySetSequenceChunker vr vw)"
  "chunkerItems (newEmptySetSequenceChunker vr vw) = []"
  by (simp_all add: chunkerInv_def chunkerItems_def newEmptySetSequenceChunker_def)

lemma walkDown_wf:
  "wfTuple n mt \<Longrightarrow> \<exists>sq m. walkDown mt = Inr sq \<and> wfSeq m sq \<and> leaves sq = leaves (child mt)"
proof (induction n arbitrary: mt)
  case 0
  then show ?case
    by (cases mt; cases "child mt") (auto simp: wfTuple_def)
next
  case (Suc n)
  obtain c k m where mt: "mt = MetaTuple c k m" by (cases mt)
  from Suc.prems mt obtain ts where c: "c = Meta ts" and ne: "ts \<noteq> []"
    and w: "\<forall>t \<in> set ts. wfTuple n t" and wc: "wfSeq (Suc n) c"
    by (cases c) (auto simp: wfTuple_def wfSeq_Meta)
  show ?case
  proof (cases "1 < length ts")
    case True
    with mt c have "walkDown mt = Inr c" by simp
    with wc mt show ?thesis by auto
  next
    case False
    with ne obtain t where ts: "ts = [t]" by (cases ts) auto
    with w have "wfTuple n t" by simp
    from Suc.IH[OF this] mt c ts show ?thesis by auto
  qed
qed

lemma doneMeta_sorted:
  "\<forall>mt \<in> set cur. wfTuple n mt \<Longrightarrow> wfLevels (Suc n) ps \<Longrightarrow>
   sorted_wrt (<) (levelItems ps @ bufLeaves cur) \<Longrightarrow> cur \<noteq> [] \<or> anyPending ps \<Longrightarrow>
   \<exists>sq m. doneMeta mb vr level cur ps = Inr sq \<and> wfSeq m sq \<and>
          leaves sq = levelItems ps @ bufLeaves cur"
proof (induction mb vr level cur ps arbitrary: n rule: doneMeta.induct)
  case (1 mb vr level cur ps)
  note wfc = "1.prems"(1) and wfl = "1.prems"(2) and so = "1.prems"(3) and pen = "1.prems"(4)
  have sc: "sorted_wrt (<) (bufLeaves cur)" using so by (simp add: sorted_wrt_append)
  show ?case
  proof (cases "anyPending ps")
    case True
    then have ne: "ps \<noteq> []" by auto
    show ?thesis
    proof (cases "cur = []")
      case False
      from createMetaSequence_sorted[OF wfc False sc, of vr level]
      obtain mt where c: "createMetaSequence vr level cur = Inr (Meta cur, mt)"
        and w: "wfTuple (Suc n) mt" and l: "leaves (child mt) = bufLeaves cur" by auto
      from appendMeta_sorted[OF wfl w, of mb vr "level + 1"] so l
      obtain ps' where a: "appendMeta mb vr (level + 1) mt ps = Inr ps'"
        and w': "wfLevels (Suc n) ps'"
        and l': "levelItems ps' = levelItems ps @ leaves (child mt)"
        and p': "anyPending ps'" by auto
      from p' obtain p pp where ps': "ps' = p # pp" by (cases ps') auto
      have "\<exists>sq m. doneMeta mb vr (level + 1) p pp = Inr sq \<and> wfSeq m sq \<and>
                leaves sq = levelItems pp @ bufLeaves p"
      proof (rule "1.IH"(1)[OF _ False c _ a ps', where n = "Suc n"])
        show "ps \<noteq> [] \<and> anyPending ps" using True ne by simp
        show "(Meta cur, mt) = (Meta cur, mt)" by simp
        show "\<forall>mt \<in> set p. wfTuple (Suc n) mt" using w' ps' by simp
        show "wfLevels (Suc (Suc n)) pp" using w' ps' by simp
        show "sorted_wrt (<) (levelItems pp @ bufLeaves p)" using l' ps' so l by simp
        show "p \<noteq> [] \<or> anyPending pp" using p' ps' by simp
      qed
      then obtain sq m where "doneMeta mb vr (level + 1) p pp = Inr sq" "wfSeq m sq"
        "leaves sq = levelItems pp @ bufLeaves p" by auto
      moreover have "doneMeta mb vr level cur ps = doneMeta mb vr (level + 1) p pp"
        using True ne False c a ps' by (subst doneMeta.simps) simp
      ultimately show ?thesis using l' ps' l by auto
    next
      case e: True
      from ne obtain p pp where ps: "ps = p # pp" by (cases ps) auto
      have "\<exists>sq m. doneMeta mb vr (level + 1) p pp = Inr sq \<and> wfSeq m sq \<and>
                leaves sq = levelItems pp @ bufLeaves p"
      proof (rule "1.IH"(2)[OF _ _ ps, where n = "Suc n"])
        show "ps \<noteq> [] \<and> anyPending ps" using True ne by simp
        show "\<not> cur \<noteq> []" using e by simp
        show "\<forall>mt \<in> set p. wfTuple (Suc n) mt" using wfl ps by simp
        show "wfLevels (Suc (Suc n)) pp" using wfl ps by simp
        show "sorted_wrt (<) (levelItems pp @ bufLeaves p)" using so ps e by simp
        show "p \<noteq> [] \<or> anyPending pp" using True ps by simp
      qed
      then obtain sq m where "doneMeta mb vr (level + 1) p pp = Inr sq" "wfSeq m sq"
        "leaves sq = levelItems pp @ bufLeaves p" by auto
      moreover have "doneMeta mb vr level cur ps = doneMeta mb vr (level + 1) p pp"
        using True ne e ps by (subst doneMeta.simps) simp
      ultimately show ?thesis using ps e by auto
    qed
  next
    case False
    with pen have ne: "cur \<noteq> []" by simp
    from False have li: "levelItems ps = []" by (rule levelItems_not_pending)
    show ?thesis
    proof (cases "1 < length cur")
      case True
      from createMetaSequence_sorted[OF wfc ne sc, of vr level]
      obtain mt where c: "createMetaSequence vr level cur = Inr (Meta cur, mt)" by auto
      have "doneMeta mb vr level cur ps = Inr (Meta cur)"
        using False True c by (subst doneMeta.simps) simp
      moreover have "wfSeq (Suc n) (Meta cur)" using wfc ne by (simp add: wfSeq_Meta)
      ultimately show ?thesis using li by (auto simp: leaves_Meta simp del: leaves.simps)
    next
      case l1: False
      with ne obtain mt where cur: "cur = [mt]" by (cases cur) auto
      with wfc have "wfTuple n mt" by simp
      from walkDown_wf[OF this] obtain sq m where
        "walkDown mt = Inr sq" "wfSeq m sq" "leaves sq = leaves (child mt)" by auto
      moreover have "doneMeta mb vr level cur ps = walkDown mt"
        using False cur by (subst doneMeta.simps) simp
      ultimately show ?thesis using li cur by auto
    qed
  qed
qed

lemma Done_sorted:
  assumes inv: "chunkerInv ch"
  shows "\<exists>sq m. Done mb ch = Inr sq \<and> wfSeq m sq \<and> leaves sq = chunkerItems ch"
proof -
  let ?ps = "sc_parents ch" and ?cur = "sc_current ch"
  from inv have wfl: "wfLevels 0 ?ps" and so: "sorted_wrt (<) (levelItems ?ps @ ?cur)"
    by (simp_all add: chunkerInv_def chunkerItems_def)
  have sc: "sorted_wrt (<) ?cur" using so by (simp add: sorted_wrt_append)
  note c = createLeafSequence_sorted[OF sc, of "sc_vr ch"]
  show ?thesis
  proof (cases "anyPending ?ps")
    case False
    then have "levelItems ?ps = []" by (rule levelItems_not_pending)
    moreover have "Done mb ch = Inr (Leaf ?cur)"
      using False c by (simp add: Done_def)
    ultimately show ?thesis by (auto simp: chunkerItems_def)
  next
    case True
    then have ne: "?ps \<noteq> []" by auto
    have "\<exists>p pp. Done mb ch = doneMeta mb (sc_vr ch) 1 p pp \<and> (\<forall>mt \<in> set p. wfTuple 0 mt) \<and>
             wfLevels (Suc 0) pp \<and> levelItems pp @ bufLeaves p = chunkerItems ch \<and>
             (p \<noteq> [] \<or> anyPending pp)"
    proof (cases "?cur = []")
      case e: True
      from ne obtain p pp where ps: "?ps = p # pp" by (cases ?ps) auto
      then have "Done mb ch = doneMeta mb (sc_vr ch) 1 p pp"
        using True e by (simp add: Done_def)
      with wfl ps True e show ?thesis by (auto simp: chunkerItems_def)
    next
      case False
      let ?mt = "MetaTuple (Leaf ?cur) (Some (last ?cur)) (length ?cur)"
      have w: "wfTuple 0 ?mt" using False by (rule wfTuple_leaf)
      from appendMeta_sorted[OF wfl w, of mb "sc_vr ch" 1] so
      obtain ps' where a: "appendMeta mb (sc_vr ch) 1 ?mt ?ps = Inr ps'"
        and w': "wfLevels 0 ps'"
        and l': "levelItems ps' = levelItems ?ps @ ?cur"
        and p': "anyPending ps'" by auto
      from p' obtain p pp where ps': "ps' = p # pp" by (cases ps') auto
      have "Done mb ch = doneMeta mb (sc_vr ch) 1 p pp"
        using True ne False c a ps' by (simp add: Done_def)
      with w' l' p' ps' show ?thesis by (auto simp: chunkerItems_def)
    qed
    then obtain p pp where d: "Done mb ch = doneMeta mb (sc_vr ch) 1 p pp"
      and 1: "\<forall>mt \<in> set p. wfTuple 0 mt" and 2: "wfLevels (Suc 0) pp"
      and 3: "levelItems pp @ bufLeaves p = chunkerItems ch"
      and 4: "p \<noteq> [] \<or> anyPending pp" by auto
    from so 3 have "sorted_wrt (<) (levelItems pp @ bufLeaves p)"
      by (simp add: chunkerItems_def)
    from doneMeta_sorted[OF 1 2 this 4, of mb "sc_vr ch" 1] d 3 show ?thesis by auto
  qed
qed

section \<open>The tree built by the constructors\<close>

lemma NewSet_built:
  "\<exists>sq m. NewSet lb mb vs = Inr (newSet sq) \<and> wfSeq m sq \<and> leaves sq = buildSetData vs"
proof -
  let ?ch = "newEmptySetSequenceChunker None None :: 'a sequenceChunker"
  from appendAll_sorted[OF chunkerInv_empty(1), of None None "buildSetData vs" lb mb]
  obtain ch' where a: "appendAll lb mb ?ch (buildSetData vs) = Inr ch'"
    and i: "chunkerInv ch'" and l: "chunkerItems ch' = buildSetData vs"
    by (auto simp: chunkerInv_empty(2) buildSetData_strict)
  from Done_sorted[OF i, of mb] l obtain sq m where
    "Done mb ch' = Inr sq" "wfSeq m sq" "leaves sq = buildSetData vs" by auto
  with a show ?thesis by (auto simp: NewSet_def)
qed

lemma createLeafSequence_reader: "createLeafSequence vr items = createLeafSequence vr' items"
  unfolding createLeafSequence_def makeSetLeafChunkFn_def newSetLeafSequence_def by simp

lemma createMetaSequence_reader:
  "createMetaSequence vr level items = createMetaSequence vr' level' items"
  unfolding createMetaSequence_def newOrderedMetaSequenceChunkFn_def by simp

lemma appendMeta_reader: "appendMeta mb vr level mt ps = appendMeta mb vr' level' mt ps"
proof (induction ps arbitrary: level level' mt)
  case Nil
  then show ?case by simp
next
  case (Cons cur ps)
  have c: "createMetaSequence vr level (cur @ [mt]) = createMetaSequence vr' level' (cur @ [mt])"
    by (rule createMetaSequence_reader)
  have a: "\<And>m. appendMeta mb vr (Suc level) m ps = appendMeta mb vr' (Suc level') m ps"
    by (rule Cons.IH)
  show ?case by (simp add: Let_def c a cong: sum.case_cong prod.case_cong if_cong)
qed

lemma doneMeta_reader: "doneMeta mb vr level cur ps = doneMeta mb vr' level' cur ps"
proof (induction mb vr level cur ps arbitrary: level' rule: doneMeta.induct)
  case (1 mb vr level cur ps)
  have c: "createMetaSequence vr level cur = createMetaSequence vr' level' cur"
    by (rule createMetaSequence_reader)
  have a: "\<And>m. appendMeta mb vr (level + 1) m ps = appendMeta mb vr' (level' + 1) m ps"
    by (rule appendMeta_reader)
  show ?case
  proof (cases "anyPending ps")
    case False
    then show ?thesis
      unfolding doneMeta.simps[of mb vr level cur ps] doneMeta.simps[of mb vr' level' cur ps]
      by (simp add: c cong: if_cong)
  next
    case ap: True
    then have True: "ps \<noteq> [] \<and> anyPending ps" by auto
    show ?thesis
    proof (cases "cur = []")
      case e: True
      from True obtain p pp where ps: "ps = p # pp" by (cases ps) auto
      from "1.IH"(2)[OF True _ ps, of "level' + 1"] e
      have "doneMeta mb vr (level + 1) p pp = doneMeta mb vr' (level' + 1) p pp" by simp
      with True e ps show ?thesis
        unfolding doneMeta.simps[of mb vr level cur ps] doneMeta.simps[of mb vr' level' cur ps]
        by simp
    next
      case False
      show ?thesis
      proof (cases "createMetaSequence vr level cur")
        case (Inl x)
        with c have c': "createMetaSequence vr' level' cur = Inl x" by simp
        from True False Inl c' show ?thesis
          unfolding doneMeta.simps[of mb vr level cur ps] doneMeta.simps[of mb vr' level' cur ps]
          by simp
      next
        case (Inr r)
        obtain sq mt where r: "r = (sq, mt)" by (cases r)
        from c Inr r have c': "createMetaSequence vr' level' cur = Inr (sq, mt)" by simp
        from Inr r have c1: "createMetaSequence vr level cur = Inr (sq, mt)" by simp
        show ?thesis
        proof (cases "appendMeta mb vr (level + 1) mt ps")
          case il: (Inl x)
          with a[of mt] have a': "appendMeta mb vr' (level' + 1) mt ps = Inl x" by simp
          from True False c1 c' il a' show ?thesis
            unfolding doneMeta.simps[of mb vr level cur ps] doneMeta.simps[of mb vr' level' cur ps]
            by simp
        next
          case ir: (Inr ps')
          with a[of mt] have a': "appendMeta mb vr' (level' + 1) mt ps = Inr ps'" by simp
          show ?thesis
          proof (cases ps')
            case Nil
            with True False c1 c' ir a' show ?thesis
              unfolding doneMeta.simps[of mb vr level cur ps]
                doneMeta.simps[of mb vr' level' cur ps]
              by simp
          next
            case (Cons p pp)
            from "1.IH"(1)[OF True False Inr _ ir Cons, of sq "level' + 1"] r
            have "doneMeta mb vr (level + 1) p pp = doneMeta mb vr' (level' + 1) p pp" by simp
            with True False c1 c' ir a' Cons show ?thesis
              unfolding doneMeta.simps[of mb vr level cur ps]
                doneMeta.simps[of mb vr' level' cur ps]
              by simp
          qed
        qed
      qed
    qed
  qed
qed

lemma Append_reader:
  "Append lb mb (ch\<lparr>sc_vr := vr, sc_vw := vw\<rparr>) v =
     map_sum id (\<lambda>c. c\<lparr>sc_vr := vr, sc_vw := vw\<rparr>) (Append lb mb ch v)"
  using createLeafSequence_reader[of vr "sc_current ch @ [v]" "sc_vr ch"]
    appendMeta_reader[of mb vr 1 _ "sc_parents ch" "sc_vr ch" 1]
  by (auto simp: Append_def Let_def split: sum.splits)

lemma appendAll_reader:
  "appendAll lb mb (ch\<lparr>sc_vr := vr, sc_vw := vw\<rparr>) vs =
     map_sum id (\<lambda>c. c\<lparr>sc_vr := vr, sc_vw := vw\<rparr>) (appendAll lb mb ch vs)"
proof (induction vs arbitrary: ch)
  case Nil
  then show ?case by simp
next
  case (Cons v vs)
  then show ?case by (cases "Append lb mb ch v") (simp_all add: Append_reader)
qed

lemma Done_reader: "Done mb (ch\<lparr>sc_vr := vr, sc_vw := vw\<rparr>) = Done mb ch"
  using createLeafSequence_reader[of vr "sc_current ch" "sc_vr ch"]
    appendMeta_reader[of mb vr 1 _ "sc_parents ch" "sc_vr ch" 1]
    doneMeta_reader[of mb vr 1 _ _ "sc_vr ch" 1]
  by (auto simp: Done_def split: sum.splits list.splits)

lemma streamLoop_appendAll:
  "streamLoop lb mb ch None (map Some vs) = appendAll lb mb ch vs"
  by (induction vs arbitrary: ch) (auto simp: PanicIfTrue_def split: sum.splits)

lemma NewStreamingSet_ascending:
  assumes "sorted_wrt (<) vs"
  shows "NewStreamingSet lb mb vrw (map Some vs) = NewSet lb mb vs"
proof -
  let ?e = "newEmptySetSequenceChunker None None :: 'a sequenceChunker"
  have e: "newEmptySetSequenceChunker vrw vrw = ?e\<lparr>sc_vr := vrw, sc_vw := vrw\<rparr>"
    by (simp add: newEmptySetSequenceChunker_def)
  show ?thesis
    unfolding NewStreamingSet_def NewSet_def buildSetData_idem[OF assms] streamLoop_appendAll e
      appendAll_reader Let_def
    by (cases "appendAll lb mb ?e vs") (simp_all add: Done_reader)
qed

section \<open>The cursor on a well-formed tree\<close>

lemma wfSeq_0: "wfSeq 0 s \<Longrightarrow> \<exists>vs. s = Leaf vs"
  by (cases s) auto

lemma wfSeq_Suc: "wfSeq (Suc n) s \<Longrightarrow> \<exists>ts. s = Meta ts \<and> ts \<noteq> [] \<and> (\<forall>mt \<in> set ts. wfTuple n mt)"
  by (cases s) (auto simp: wfSeq_Meta)

lemma itemsFrom_0: "itemsFrom s 0 = leaves s"
  by (cases s) (simp_all add: bufLeaves_def)

lemma itemsFrom_end: "seqLen s \<le> i \<Longrightarrow> itemsFrom s i = []"
  by (cases s) simp_all

lemma itemsFrom_Leaf_valid:
  "i < length vs \<Longrightarrow> itemsFrom (Leaf vs) i = vs ! i # itemsFrom (Leaf vs) (Suc i)"
  by (simp add: Cons_nth_drop_Suc)

lemma itemsFrom_Meta_valid:
  "i < length ts \<Longrightarrow>
   itemsFrom (Meta ts) i = leaves (child (ts ! i)) @ itemsFrom (Meta ts) (Suc i)"
  by (simp add: Cons_nth_drop_Suc[symmetric])

lemma rest_child: "getChildSequence ps = Some cs \<Longrightarrow> rest ps = leaves cs @ restAfter ps"
proof (cases ps)
  case Nil
  assume "getChildSequence ps = Some cs"
  with Nil show ?thesis by simp
next
  case (Cons f pp)
  assume g: "getChildSequence ps = Some cs"
  obtain s j where f: "f = (s, j)" by (cases f)
  from g Cons f obtain ts where "s = Meta ts" "j < length ts" "cs = child (ts ! j)"
    by (cases s) (auto split: if_splits)
  with Cons f show ?thesis by (simp del: itemsFrom.simps add: itemsFrom_Meta_valid)
qed

lemma child_wf:
  assumes "wfSeq (Suc n) s" and "i < seqLen s"
  shows "\<exists>cs. getChildSequence ((s, i) # ps) = Some cs \<and> wfSeq n cs \<and> leaves cs \<noteq> [] \<and>
              0 < seqLen cs"
proof -
  from wfSeq_Suc[OF assms(1)] obtain ts where s: "s = Meta ts"
    and w: "\<forall>mt \<in> set ts. wfTuple n mt" by auto
  from assms(2) s have i: "i < length ts" by simp
  with w have t: "wfTuple n (ts ! i)" by simp
  let ?cs = "child (ts ! i)"
  from t have wc: "wfSeq n ?cs" and ne: "leaves ?cs \<noteq> []" by (simp_all add: wfTuple_def)
  have "0 < seqLen ?cs"
  proof (cases ?cs)
    case (Leaf vs)
    with ne show ?thesis by simp
  next
    case (Meta ts')
    with wc show ?thesis by (cases n) (auto simp: wfSeq_Meta)
  qed
  with s i wc ne show ?thesis by simp
qed

lemma valid_parent:
  "getChildSequence ps = Some s \<Longrightarrow> valid ps"
  by (cases ps rule: getChildSequence.cases) (auto split: if_splits)

lemma advance_rest:
  "wfCursor n cur \<Longrightarrow> valid cur \<Longrightarrow> advanceMaybeAllowPastEnd a cur = (b, cur') \<Longrightarrow>
   (b \<longrightarrow> wfCursor n cur' \<and> valid cur' \<and> rest cur' = restAfter cur) \<and>
   (\<not> b \<longrightarrow> restAfter cur = [] \<and>
      cur' = (fst (hd cur), if a then Suc (snd (hd cur)) else snd (hd cur)) # tl cur)"
proof (induction cur arbitrary: n a b cur')
  case Nil
  then show ?case by simp
next
  case (Cons f ps)
  obtain s i where f: "f = (s, i)" by (cases f)
  from Cons.prems f have ws: "wfSeq n s" and par: "ps = [] \<or> getChildSequence ps = Some s"
    and wp: "wfCursor (Suc n) ps" and v: "i < seqLen s" by simp_all
  show ?case
  proof (cases "i + 1 < seqLen s")
    case True
    with Cons.prems(3) f have "b" "cur' = (s, i + 1) # ps" by auto
    with ws par wp True f show ?thesis by simp
  next
    case False
    with v have e: "Suc i = seqLen s" and ne: "i \<noteq> seqLen s" by simp_all
    have fin: "itemsFrom s (Suc i) = []" using e by (simp add: itemsFrom_end)
    obtain b0 ps0 where r: "advanceMaybeAllowPastEnd False ps = (b0, ps0)"
      by (cases "advanceMaybeAllowPastEnd False ps")
    show ?thesis
    proof (cases "ps = []")
      case True
      with r have "\<not> b0" by simp
      with Cons.prems(3) f False ne r have "\<not> b" "cur' = (s, if a then i + 1 else i) # ps"
        by auto
      with True f fin show ?thesis by simp
    next
      case pne: False
      with par have g: "getChildSequence ps = Some s" by simp
      then have vp: "valid ps" by (rule valid_parent)
      note ih = Cons.IH[OF wp vp r]
      show ?thesis
      proof (cases b0)
        case True
        with ih have w0: "wfCursor (Suc n) ps0" and v0: "valid ps0"
          and r0: "rest ps0 = restAfter ps" by simp_all
        from v0 obtain s0 j0 pp0 where ps0: "ps0 = (s0, j0) # pp0"
          by (cases ps0) auto
        with w0 v0 have "wfSeq (Suc n) s0" "j0 < seqLen s0" by simp_all
        from child_wf[OF this, of pp0] ps0 obtain cs where
          gc: "getChildSequence ps0 = Some cs" and wc: "wfSeq n cs" and lc: "0 < seqLen cs"
          by auto
        from Cons.prems(3) f False ne r True gc
        have res: "b" "cur' = (cs, 0) # ps0" by auto
        have "rest cur' = restAfter (f # ps)"
          using res rest_child[OF gc] r0 f fin by (simp add: itemsFrom_0)
        with res wc gc w0 lc show ?thesis by simp
      next
        case False
        with ih have "restAfter ps = []" by simp
        moreover from Cons.prems(3) f \<open>\<not> i + 1 < seqLen s\<close> ne r False
        have "\<not> b" "cur' = (s, if a then i + 1 else i) # ps" by auto
        ultimately show ?thesis using f fin by simp
      qed
    qed
  qed
qed

lemma advance_step:
  assumes w: "wfCursor n cur" and v: "valid cur"
  shows "wfCursor n (advance cur) \<and> rest (advance cur) = restAfter cur \<and>
         (\<not> valid (advance cur) \<longrightarrow> restAfter cur = [])"
proof -
  obtain b cur' where r: "advanceMaybeAllowPastEnd True cur = (b, cur')"
    by (cases "advanceMaybeAllowPastEnd True cur")
  from v obtain s i ps where c: "cur = (s, i) # ps" by (cases cur) auto
  note a = advance_rest[OF w v r]
  show ?thesis
  proof (cases b)
    case True
    with a r show ?thesis by (simp add: advance_def)
  next
    case False
    with a c have n: "restAfter cur = []" and c': "cur' = (s, Suc i) # ps" by simp_all
    from n c have "itemsFrom s (Suc i) = []" "restAfter ps = []" by simp_all
    with r c' n w c show ?thesis by (simp add: advance_def)
  qed
qed

lemma valid_current:
  assumes "wfCursor 0 cur" and "valid cur"
  shows "current cur = Inr (ValueItem (hd (rest cur))) \<and> rest cur = hd (rest cur) # restAfter cur"
proof -
  from assms(2) obtain s i ps where c: "cur = (s, i) # ps" by (cases cur) auto
  with assms(1) obtain vs where s: "s = Leaf vs" by (auto dest: wfSeq_0)
  from assms(2) c s have "i < length vs" by simp
  with c s show ?thesis by (simp add: Cons_nth_drop_Suc[symmetric])
qed

lemma iter_rest:
  "wfCursor 0 cur \<Longrightarrow> (\<not> valid cur \<longrightarrow> rest cur = []) \<Longrightarrow>
   iter cur cb st = iterList cb (rest cur) st"
proof (induction cur cb st rule: iter.induct)
  case (1 cur cb st)
  show ?case
  proof (cases "valid cur")
    case False
    with "1.prems" show ?thesis by (subst iter.simps) simp
  next
    case True
    from valid_current[OF "1.prems"(1) True]
    have cu: "current cur = Inr (ValueItem (hd (rest cur)))"
      and re: "rest cur = hd (rest cur) # restAfter cur" by simp_all
    let ?v = "hd (rest cur)"
    from advance_step[OF "1.prems"(1) True]
    have wa: "wfCursor 0 (advance cur)" and ra: "rest (advance cur) = restAfter cur"
      and va: "\<not> valid (advance cur) \<longrightarrow> rest (advance cur) = []" by simp_all
    show ?thesis
    proof (cases "cb (ValueItem ?v) st")
      case (Inl e)
      then have "iter cur cb st = Inl e" using True cu by (subst iter.simps) simp
      moreover have "iterList cb (rest cur) st = Inl e"
        using Inl by (subst re) simp
      ultimately show ?thesis by simp
    next
      case (Inr r)
      obtain stop st' where r: "r = (stop, st')" by (cases r)
      show ?thesis
      proof (cases stop)
        case s: True
        then have "iter cur cb st = Inr st'" using True cu Inr r by (subst iter.simps) simp
        moreover have "iterList cb (rest cur) st = Inr st'"
          using Inr r s by (subst re) simp
        ultimately show ?thesis by simp
      next
        case s: False
        have "iter (advance cur) cb st' = iterList cb (rest (advance cur)) st'"
          using "1.IH"[OF True cu Inr _ _ wa va, of stop st'] r s by simp
        moreover have "iter cur cb st = iter (advance cur) cb st'"
          using True cu Inr r s by (subst iter.simps) simp
        moreover have "iterList cb (rest cur) st = iterList cb (restAfter cur) st'"
          using Inr r s by (subst re) simp
        ultimately show ?thesis using ra by simp
      qed
    qed
  qed
qed

section \<open>First position, length and iteration of a well-formed set\<close>

lemma newCursorAtFrom_first:
  "wfSeq n s \<Longrightarrow> ps = [] \<or> getChildSequence ps = Some s \<Longrightarrow> wfCursor (Suc n) ps \<Longrightarrow>
   wfCursor 0 (newCursorAtFrom ps s None forInsertion False) \<and>
   rest (newCursorAtFrom ps s None forInsertion False) = leaves s @ restAfter ps \<and>
   (leaves s \<noteq> [] \<longrightarrow> valid (newCursorAtFrom ps s None forInsertion False))"
proof (induction n arbitrary: s ps)
  case 0
  then obtain vs where s: "s = Leaf vs" by (auto dest: wfSeq_0)
  have "newCursorAtFrom ps s None forInsertion False = (s, 0) # ps"
    using s by (subst newCursorAtFrom.simps) simp
  with 0 s show ?case by simp
next
  case (Suc n)
  from wfSeq_Suc[OF Suc.prems(1)] obtain ts where s: "s = Meta ts" and ne: "ts \<noteq> []"
    and w: "\<forall>mt \<in> set ts. wfTuple n mt" by auto
  let ?cur = "(s, 0) # ps"
  let ?cs = "child (ts ! 0)"
  from ne w have t: "wfTuple n (ts ! 0)" by simp
  then have wc: "wfSeq n ?cs" and lc: "leaves ?cs \<noteq> []" by (simp_all add: wfTuple_def)
  have g: "getChildSequence ?cur = Some ?cs" using s ne by simp
  have e: "newCursorAtFrom ps s None forInsertion False =
           newCursorAtFrom ?cur ?cs None forInsertion False"
    using g by (subst newCursorAtFrom.simps) simp
  have "wfCursor (Suc n) ?cur" using Suc.prems by simp
  from Suc.IH[OF wc _ this] g
  have ih: "wfCursor 0 (newCursorAtFrom ?cur ?cs None forInsertion False)"
    "rest (newCursorAtFrom ?cur ?cs None forInsertion False) = leaves ?cs @ restAfter ?cur"
    "valid (newCursorAtFrom ?cur ?cs None forInsertion False)"
    using lc by simp_all
  from ne obtain t ts' where "ts = t # ts'" by (cases ts) auto
  then have "leaves ?cs @ restAfter ?cur = leaves s @ restAfter ps"
    using s by (simp add: bufLeaves_def)
  with ih e show ?case by simp
qed

lemma newCursorAt_first:
  assumes "wfSeq n s"
  shows "wfCursor 0 (newCursorAt s None forInsertion False readAhead)"
    and "rest (newCursorAt s None forInsertion False readAhead) = leaves s"
    and "valid (newCursorAt s None forInsertion False readAhead) \<longleftrightarrow> leaves s \<noteq> []"
proof -
  let ?c = "newCursorAt s None forInsertion False readAhead"
  from newCursorAtFrom_first[OF assms, of "[]" forInsertion]
  have w: "wfCursor 0 ?c" and r: "rest ?c = leaves s" and v: "leaves s \<noteq> [] \<longrightarrow> valid ?c"
    by (simp_all add: newCursorAt_def)
  show "wfCursor 0 ?c" by (rule w)
  show "rest ?c = leaves s" by (rule r)
  show "valid ?c \<longleftrightarrow> leaves s \<noteq> []"
  proof
    assume "valid ?c"
    from valid_current[OF w this] r show "leaves s \<noteq> []" by auto
  next
    assume "leaves s \<noteq> []"
    with v show "valid ?c" by simp
  qed
qed

lemma numLeaves_wf: "wfSeq n s \<Longrightarrow> numLeaves s = length (leaves s)"
proof (cases s)
  case (Leaf vs)
  then show ?thesis by simp
next
  case (Meta ts)
  assume "wfSeq n s"
  with Meta obtain m where "\<forall>mt \<in> set ts. wfTuple m mt"
    by (cases n) (auto simp: wfSeq_Meta)
  from sum_count_bufLeaves[OF this] Meta show ?thesis by (simp add: bufLeaves_def)
qed

lemma Len_wf: "wfSeq n (seq s) \<Longrightarrow> Len s = length (leaves (seq s))"
  by (simp add: Len_def numLeaves_wf)

lemma First_wf:
  assumes "wfSeq n (seq s)"
  shows "First s = Inr (case leaves (seq s) of [] \<Rightarrow> None | v # _ \<Rightarrow> Some v)"
proof -
  let ?c = "newCursorAt (seq s) None False False False"
  note c = newCursorAt_first[OF assms, of False False]
  show ?thesis
  proof (cases "leaves (seq s)")
    case Nil
    with c(3) have "\<not> valid ?c" by simp
    with Nil show ?thesis by (simp add: First_def)
  next
    case (Cons v vs)
    with c(3) have v: "valid ?c" by simp
    from valid_current[OF c(1) v] c(2) Cons
    have "current ?c = Inr (ValueItem v)" by simp
    with v Cons show ?thesis by (simp add: First_def)
  qed
qed

lemma iterList_values:
  "iterList (\<lambda>item st. case asValue item of Inl e \<Rightarrow> Inl e | Inr v \<Rightarrow> Inr (cb v st)) vs st =
     Inr (iterValues cb vs st)"
  by (induction vs arbitrary: st) (auto split: prod.splits)

lemma iterList_all:
  "iterList (\<lambda>item st. case asValue item of Inl e \<Rightarrow> Inl e | Inr v \<Rightarrow> Inr (False, cb v st)) vs st =
     Inr (fold cb vs st)"
  by (induction vs arbitrary: st) auto

lemma Iter_wf:
  assumes "wfSeq n (seq s)"
  shows "Iter s cb st = Inr (iterValues cb (leaves (seq s)) st)"
proof -
  note c = newCursorAt_first[OF assms, of False False]
  from c(2,3) have e: "\<not> valid (newCursorAt (seq s) None False False False) \<longrightarrow>
      rest (newCursorAt (seq s) None False False False) = []" by simp
  from c(2) show ?thesis
    by (simp add: Iter_def iterList_values iter_rest[OF c(1) e])
qed

lemma IterAll_wf:
  assumes "wfSeq n (seq s)"
  shows "IterAll s cb st = Inr (fold cb (leaves (seq s)) st)"
proof -
  note c = newCursorAt_first[OF assms, of False True]
  from c(2,3) have e: "\<not> valid (newCursorAt (seq s) None False False True) \<longrightarrow>
      rest (newCursorAt (seq s) None False False True) = []" by simp
  from c(2) show ?thesis
    by (simp add: IterAll_def iterList_all iter_rest[OF c(1) e])
qed

lemma fold_collect: "fold (\<lambda>v acc. acc @ [v]) vs acc = acc @ vs"
  by (induction vs arbitrary: acc) auto

lemma iterValues_collect: "iterValues (\<lambda>v acc. (False, acc @ [v])) vs acc = acc @ vs"
  by (induction vs arbitrary: acc) auto

text \<open>
  Claim C1. For every list of values \<open>V\<close>, with or without duplicates, and whatever the
  boundary functions are, \<^verbatim>\<open>NewSet(V)\<close> returns a set; its \<^verbatim>\<open>Len()\<close> is the number of
  distinct values of \<open>V\<close>, and both \<^verbatim>\<open>IterAll\<close> and \<^verbatim>\<open>Iter\<close> (with a callback that never
  stops) visit exactly the distinct values of \<open>V\<close> in strictly ascending order, each
  once.
\<close>

theorem NewSet_distinct_ascending:
  "\<exists>s. NewSet lb mb V = Inr s \<and> Len s = card (set V) \<and>
       IterAll s (\<lambda>v acc. acc @ [v]) [] = Inr (sorted_list_of_set (set V)) \<and>
       Iter s (\<lambda>v acc. (False, acc @ [v])) [] = Inr (sorted_list_of_set (set V)) \<and>
       sorted_wrt (<) (sorted_list_of_set (set V)) \<and>
       set (sorted_list_of_set (set V)) = set V"
proof -
  from NewSet_built[of lb mb V] obtain sq m where
    n: "NewSet lb mb V = Inr (newSet sq)" and w: "wfSeq m sq" and l: "leaves sq = buildSetData V"
    by auto
  have w': "wfSeq m (seq (newSet sq))" using w by (simp add: newSet_def)
  have l': "leaves (seq (newSet sq)) = sorted_list_of_set (set V)"
    using l by (simp add: newSet_def buildSetData_sorted_list_of_set)
  have "Len (newSet sq) = card (set V)" using Len_wf[OF w'] l' by simp
  moreover have "IterAll (newSet sq) (\<lambda>v acc. acc @ [v]) [] = Inr (sorted_list_of_set (set V))"
    using l' by (simp add: fold_collect IterAll_wf[OF w'])
  moreover have "Iter (newSet sq) (\<lambda>v acc. (False, acc @ [v])) [] = Inr (sorted_list_of_set (set V))"
    using l' by (simp add: iterValues_collect Iter_wf[OF w'])
  moreover have "sorted_wrt (<) (sorted_list_of_set (set V))"
    by (simp add: strict_sorted_iff)
  ultimately show ?thesis using n by auto
qed

theorem NewSet_distinct_ascending_witness:
  "\<exists>s. NewSet evenBoundary keyBoundary [3, 1, 2, 3, 1] = Inr s \<and> Len s = 3 \<and>
       IterAll s (\<lambda>v acc. acc @ [v]) [] = Inr [1, 2, 3] \<and>
       Iter s (\<lambda>v acc. (False, acc @ [v])) [] = Inr [1, 2, 3]"
proof -
  have c: "card (set [3, 1, 2, 3, 1 :: nat]) = 3" by code_simp
  have l: "sorted_list_of_set (set [3, 1, 2, 3, 1 :: nat]) = [1, 2, 3]" by code_simp
  from NewSet_distinct_ascending [of evenBoundary keyBoundary "[3, 1, 2, 3, 1]"]
  show ?thesis unfolding c l by blast
qed

section \<open>Bisection and the descent by index\<close>

lemma search_spec:
  "(\<And>a b. a \<le> b \<Longrightarrow> b < n \<Longrightarrow> f a \<Longrightarrow> f b) \<Longrightarrow>
   i \<le> j \<Longrightarrow> j \<le> n \<Longrightarrow> \<forall>k<i. \<not> f k \<Longrightarrow> j < n \<longrightarrow> f j \<Longrightarrow>
   search i j f \<le> j \<and> (\<forall>k < search i j f. \<not> f k) \<and>
   (search i j f < n \<longrightarrow> f (search i j f))"
proof (induction i j f rule: search.induct)
  case (1 i j f)
  note mono = "1.prems"(1)
  show ?case
  proof (cases "i < j")
    case False
    with "1.prems"(2) have "i = j" by simp
    moreover have "search i j f = i" using False by (subst search.simps) simp
    ultimately show ?thesis using "1.prems"(2-) by simp
  next
    case True
    let ?m = "(i + j) div 2"
    from True have m: "i \<le> ?m" "?m < j" by auto
    show ?thesis
    proof (cases "f ?m")
      case fm: True
      have e: "search i j f = search i ?m f"
        using True fm by (subst search.simps) (simp add: Let_def)
      have "search i ?m f \<le> ?m \<and> (\<forall>k < search i ?m f. \<not> f k) \<and>
            (search i ?m f < n \<longrightarrow> f (search i ?m f))"
        using "1.IH"(2)[OF True refl _ mono] fm m "1.prems"(2-) by simp
      with e m show ?thesis by simp
    next
      case fm: False
      have e: "search i j f = search (?m + 1) j f"
        using True fm by (subst search.simps) (simp add: Let_def)
      have below: "\<forall>k < ?m + 1. \<not> f k"
      proof (intro allI impI)
        fix k assume "k < ?m + 1"
        then have "k \<le> ?m" by simp
        moreover have "?m < n" using m "1.prems"(3) by simp
        ultimately show "\<not> f k" using mono[of k ?m] fm by blast
      qed
      have "search (?m + 1) j f \<le> j \<and> (\<forall>k < search (?m + 1) j f. \<not> f k) \<and>
            (search (?m + 1) j f < n \<longrightarrow> f (search (?m + 1) j f))"
        using "1.IH"(1)[OF True refl _ mono] fm m "1.prems"(2-) below by simp
      with e show ?thesis by simp
    qed
  qed
qed

lemma sortSearch_spec:
  assumes "\<And>a b. a \<le> b \<Longrightarrow> b < n \<Longrightarrow> f a \<Longrightarrow> f b"
  shows "sortSearch n f \<le> n \<and> (\<forall>k < sortSearch n f. \<not> f k) \<and>
         (sortSearch n f < n \<longrightarrow> f (sortSearch n f))"
  unfolding sortSearch_def using search_spec[of n f 0 n] assms by simp

lemma cumulative_bufLeaves:
  assumes "\<forall>mt \<in> set ts. wfTuple n mt"
  shows "cumulativeNumberOfLeaves ts i = length (bufLeaves (take (Suc i) ts))"
proof -
  have "\<forall>mt \<in> set (take (Suc i) ts). wfTuple n mt"
    using assms by (auto dest: in_set_takeD)
  from sum_count_bufLeaves[OF this] show ?thesis
    by (simp add: cumulativeNumberOfLeaves_def)
qed

lemma bufLeaves_take_mono: "a \<le> b \<Longrightarrow> length (bufLeaves (take a ts)) \<le> length (bufLeaves (take b ts))"
proof -
  assume "a \<le> b"
  then have "take b ts = take a ts @ take (b - a) (drop a ts)"
    by (metis le_add_diff_inverse take_add)
  then show ?thesis by simp
qed

lemma advanceCursorToOffset_Meta:
  assumes w: "\<forall>mt \<in> set ts. wfTuple n mt" and idx: "idx < length (bufLeaves ts)"
  shows "\<exists>i. advanceCursorToOffset (Meta ts) idx = (i, length (bufLeaves (take i ts))) \<and>
             i < length ts \<and> length (bufLeaves (take i ts)) \<le> idx \<and>
             idx < length (bufLeaves (take (Suc i) ts))"
proof -
  let ?f = "\<lambda>i. idx < cumulativeNumberOfLeaves ts i"
  let ?i = "sortSearch (length ts) ?f"
  have cum: "\<And>i. cumulativeNumberOfLeaves ts i = length (bufLeaves (take (Suc i) ts))"
    by (rule cumulative_bufLeaves[OF w])
  have "\<And>a b. a \<le> b \<Longrightarrow> b < length ts \<Longrightarrow> ?f a \<Longrightarrow> ?f b"
    using bufLeaves_take_mono[of "Suc _" "Suc _" ts] by (fastforce simp: cum)
  from sortSearch_spec[of "length ts" ?f, OF this]
  have le: "?i \<le> length ts" and below: "\<forall>k < ?i. \<not> ?f k"
    and at: "?i < length ts \<longrightarrow> ?f ?i" by simp_all
  from idx have ne: "ts \<noteq> []" by auto
  have lt: "?i < length ts"
  proof (rule ccontr)
    assume "\<not> ?i < length ts"
    with le have "?i = length ts" by simp
    with below ne have "\<not> ?f (length ts - 1)" by simp
    with idx ne show False by (simp add: cum)
  qed
  have lo: "length (bufLeaves (take ?i ts)) \<le> idx"
  proof (cases "?i")
    case 0
    then show ?thesis by simp
  next
    case (Suc k)
    with below have "\<not> ?f k" by simp
    with Suc show ?thesis by (simp add: cum)
  qed
  have off: "(if ?i = 0 then 0 else cumulativeNumberOfLeaves ts (?i - 1)) =
             length (bufLeaves (take ?i ts))"
    by (cases ?i) (simp_all add: cum)
  have "advanceCursorToOffset (Meta ts) idx =
          (?i, if ?i = 0 then 0 else cumulativeNumberOfLeaves ts (?i - 1))"
    using lt by (simp add: Let_def)
  then have "advanceCursorToOffset (Meta ts) idx = (?i, length (bufLeaves (take ?i ts)))"
    by (simp only: off)
  moreover from lt at have "idx < length (bufLeaves (take (Suc ?i) ts))" by (simp add: cum)
  ultimately show ?thesis using lt lo by blast
qed

lemma newCursorAtIndexFrom_wf:
  "wfSeq n s \<Longrightarrow> idx < length (leaves s) \<Longrightarrow> ps = [] \<or> getChildSequence ps = Some s \<Longrightarrow>
   wfCursor (Suc n) ps \<Longrightarrow>
   wfCursor 0 (newCursorAtIndexFrom ps s idx) \<and> valid (newCursorAtIndexFrom ps s idx) \<and>
   rest (newCursorAtIndexFrom ps s idx) = drop idx (leaves s) @ restAfter ps"
proof (induction n arbitrary: s ps idx)
  case 0
  then obtain vs where s: "s = Leaf vs" by (auto dest: wfSeq_0)
  have "newCursorAtIndexFrom ps s idx = (s, idx) # ps"
    using s by (subst newCursorAtIndexFrom.simps) simp
  with 0 s show ?case by simp
next
  case (Suc n)
  from wfSeq_Suc[OF Suc.prems(1)] obtain ts where s: "s = Meta ts" and ne: "ts \<noteq> []"
    and w: "\<forall>mt \<in> set ts. wfTuple n mt" by auto
  from Suc.prems(2) s have "idx < length (bufLeaves ts)" by (simp add: bufLeaves_def)
  from advanceCursorToOffset_Meta[OF w this] obtain i where
    a: "advanceCursorToOffset (Meta ts) idx = (i, length (bufLeaves (take i ts)))"
    and i: "i < length ts" and lo: "length (bufLeaves (take i ts)) \<le> idx"
    and hi: "idx < length (bufLeaves (take (Suc i) ts))" by auto
  let ?off = "length (bufLeaves (take i ts))"
  let ?cur = "(s, i) # ps"
  let ?cs = "child (ts ! i)"
  from i w have "wfTuple n (ts ! i)" by simp
  then have wc: "wfSeq n ?cs" by (simp add: wfTuple_def)
  have g: "getChildSequence ?cur = Some ?cs" using s i by simp
  from a s have a': "advanceCursorToOffset s idx = (i, ?off)" by simp
  have e: "newCursorAtIndexFrom ps s idx = newCursorAtIndexFrom ?cur ?cs (idx - ?off)"
    by (subst newCursorAtIndexFrom.simps)
       (simp only: a' g Let_def fst_conv snd_conv option.case)
  have tk: "take (Suc i) ts = take i ts @ [ts ! i]"
    using i by (simp add: take_Suc_conv_app_nth)
  with hi lo have idx': "idx - ?off < length (leaves ?cs)" by simp
  have wcur: "wfCursor (Suc n) ?cur" using Suc.prems by simp
  from Suc.IH[OF wc idx' _ wcur] g
  have ih: "wfCursor 0 (newCursorAtIndexFrom ?cur ?cs (idx - ?off))"
    "valid (newCursorAtIndexFrom ?cur ?cs (idx - ?off))"
    "rest (newCursorAtIndexFrom ?cur ?cs (idx - ?off)) =
       drop (idx - ?off) (leaves ?cs) @ restAfter ?cur" by simp_all
  have "ts = take i ts @ ts ! i # drop (Suc i) ts"
    using i by (simp add: id_take_nth_drop[symmetric])
  then have "bufLeaves ts = bufLeaves (take i ts) @ leaves ?cs @ bufLeaves (drop (Suc i) ts)"
    by (metis bufLeaves_simps(2,3))
  then have "drop idx (leaves s) =
             drop (idx - ?off) (leaves ?cs) @ bufLeaves (drop (Suc i) ts)"
    using s lo idx' by (simp add: bufLeaves_def[symmetric] del: leaves.simps add: leaves_Meta)
  with ih e s show ?case by simp
qed

lemma At_wf:
  assumes w: "wfSeq n (seq s)"
  shows "At s idx = (if idx \<ge> Len s then Inl (OutOfBounds idx (Len s))
                     else Inr (leaves (seq s) ! idx))"
proof (cases "idx \<ge> Len s")
  case True
  then show ?thesis by (simp add: At_def)
next
  case False
  with Len_wf[OF w] have i: "idx < length (leaves (seq s))" by simp
  let ?c = "newCursorAtIndex (seq s) idx False"
  from newCursorAtIndexFrom_wf[OF w i, of "[]"]
  have "wfCursor 0 ?c" "valid ?c" "rest ?c = drop idx (leaves (seq s))"
    by (simp_all add: newCursorAtIndex_def)
  with valid_current[of ?c] i have "current ?c = Inr (ValueItem (leaves (seq s) ! idx))"
    by (simp add: hd_drop_conv_nth)
  with False show ?thesis by (simp add: At_def)
qed

section \<open>The descent by key on an ascending tree\<close>

lemma le_last_sorted: "sorted_wrt (<) xs \<Longrightarrow> x \<in> set xs \<Longrightarrow> x \<le> last (xs :: 'a::linorder list)"
proof (induction xs)
  case Nil
  then show ?case by simp
next
  case (Cons y ys)
  then show ?case by (cases "ys = []") (auto intro: less_imp_le order_trans)
qed

lemma hd_dropWhile_nth:
  assumes "\<forall>k<i. P (xs ! k)" and "i < length xs" and "\<not> P (xs ! i)"
  shows "hd (dropWhile P xs) = xs ! i"
proof -
  have "takeWhile P xs = take i xs"
    using assms by (intro takeWhile_eq_take_P_nth) auto
  then have "dropWhile P xs = drop i xs"
    by (metis append_eq_conv_conj takeWhile_dropWhile_id length_take min.absorb2
        less_imp_le assms(2) append_take_drop_id same_append_eq)
  with assms(2) show ?thesis by (simp add: hd_drop_conv_nth)
qed

lemma seekTo_Leaf:
  assumes so: "sorted_wrt (<) (vs :: 'a::linorder list)"
  shows "\<exists>i. seekTo (Leaf vs) (Some v) False = (i, i < length vs) \<and> i \<le> length vs \<and>
             (\<forall>k<i. vs ! k < v) \<and> (i < length vs \<longrightarrow> v \<le> vs ! i)"
proof -
  let ?f = "\<lambda>i. \<not> keyLess (getKey (Leaf vs) i) (Some v)"
  let ?i = "sortSearch (length vs) ?f"
  have sp: "?i \<le> length vs \<and> (\<forall>k < ?i. \<not> ?f k) \<and> (?i < length vs \<longrightarrow> ?f ?i)"
  proof (rule sortSearch_spec)
    fix a b assume ab: "a \<le> b" "b < length vs" "?f a"
    from so ab(1,2) have "vs ! a \<le> vs ! b"
      by (cases "a = b") (auto simp: sorted_wrt_iff_nth_less intro: less_imp_le)
    with ab(3) show "?f b" by (simp add: newOrderedKey_def not_less)
  qed
  have "seekTo (Leaf vs) (Some v) False = (?i, ?i < length vs)"
    by (simp add: seekTo_def Let_def)
  with sp show ?thesis by (auto simp: newOrderedKey_def not_less)
qed

lemma set_bufLeaves: "set (bufLeaves ts) = (\<Union>mt \<in> set ts. set (leaves (child mt)))"
  by (simp add: bufLeaves_def)

lemma bufLeaves_split:
  "i < length ts \<Longrightarrow>
   bufLeaves ts = bufLeaves (take i ts) @ leaves (child (ts ! i)) @ bufLeaves (drop (Suc i) ts)"
proof -
  assume "i < length ts"
  then have "ts = take i ts @ ts ! i # drop (Suc i) ts"
    by (simp add: id_take_nth_drop[symmetric])
  then show ?thesis by (metis bufLeaves_simps(2,3))
qed

lemma bufLeaves_sorted_child:
  "sorted_wrt (<) (bufLeaves ts) \<Longrightarrow> i < length ts \<Longrightarrow> sorted_wrt (<) (leaves (child (ts ! i)))"
  using bufLeaves_split[of i ts] by (simp add: sorted_wrt_append)

lemma bufLeaves_sorted_nth:
  assumes "sorted_wrt (<) (bufLeaves ts)" and "a < b" and "b < length ts"
    and "x \<in> set (leaves (child (ts ! a)))" and "y \<in> set (leaves (child (ts ! b)))"
  shows "x < y"
proof -
  from assms(2,3) have "ts ! a \<in> set (take b ts)"
    by (metis in_set_conv_nth length_take min.absorb2 less_imp_le nth_take)
  with assms(4) have "x \<in> set (bufLeaves (take b ts))" by (auto simp: set_bufLeaves)
  with assms(1,5) bufLeaves_split[OF assms(3)] show ?thesis
    by (auto simp: sorted_wrt_append)
qed

lemma seekTo_Meta:
  assumes w: "\<forall>mt \<in> set ts. wfTuple n mt"
    and so: "sorted_wrt (<) (bufLeaves (ts :: ('a::linorder) metaTuple list))"
  shows "\<exists>i. seekTo (Meta ts) (Some v) False = (i, i < length ts) \<and> i \<le> length ts \<and>
             (\<forall>k<i. \<forall>x \<in> set (leaves (child (ts ! k))). x < v) \<and>
             (i < length ts \<longrightarrow> v \<le> last (leaves (child (ts ! i))))"
proof -
  let ?f = "\<lambda>i. \<not> keyLess (getKey (Meta ts) i) (Some v)"
  let ?i = "sortSearch (length ts) ?f"
  let ?l = "\<lambda>i. leaves (child (ts ! i))"
  have k: "\<And>i. i < length ts \<Longrightarrow> ?f i = (v \<le> last (?l i))"
    using w by (auto simp: wfTuple_def not_less)
  have ne: "\<And>i. i < length ts \<Longrightarrow> ?l i \<noteq> []"
    using w by (auto simp: wfTuple_def)
  have sp: "?i \<le> length ts \<and> (\<forall>k < ?i. \<not> ?f k) \<and> (?i < length ts \<longrightarrow> ?f ?i)"
  proof (rule sortSearch_spec)
    fix a b assume ab: "a \<le> b" "b < length ts" "?f a"
    have "last (?l a) \<le> last (?l b)"
    proof (cases "a = b")
      case False
      with ab(1) have "a < b" by simp
      from bufLeaves_sorted_nth[OF so this ab(2), of "last (?l a)" "last (?l b)"]
        ne[of a] ne[OF ab(2)] ab(1,2)
      show ?thesis by (simp add: less_imp_le)
    qed simp
    with ab k[of a] k[of b] show "?f b" by simp
  qed
  have below: "\<forall>k < ?i. \<forall>x \<in> set (?l k). x < v"
  proof (intro allI impI ballI)
    fix j x assume j: "j < ?i" and x: "x \<in> set (?l j)"
    with sp have jl: "j < length ts" and "\<not> ?f j" by simp_all
    with k[of j] have "last (?l j) < v" by (simp add: not_le)
    moreover have "x \<le> last (?l j)"
      using le_last_sorted[OF bufLeaves_sorted_child[OF so jl] x] .
    ultimately show "x < v" by simp
  qed
  have "seekTo (Meta ts) (Some v) False = (?i, ?i < length ts)"
    by (simp add: seekTo_def Let_def)
  moreover from sp k[of ?i] have "?i < length ts \<longrightarrow> v \<le> last (?l ?i)" by simp
  ultimately show ?thesis using sp below by blast
qed

lemma newCursorAtFrom_seek:
  "wfSeq n s \<Longrightarrow> sorted_wrt (<) (leaves s) \<Longrightarrow>
   (if \<exists>x \<in> set (leaves s). v \<le> x
    then valid (newCursorAtFrom ps s (Some v) False False) \<and>
         current (newCursorAtFrom ps s (Some v) False False) =
           Inr (ValueItem (hd (dropWhile (\<lambda>x. x < v) (leaves s))))
    else \<not> valid (newCursorAtFrom ps s (Some v) False False))"
proof (induction n arbitrary: s ps)
  case 0
  then obtain vs where s: "s = Leaf vs" by (auto dest: wfSeq_0)
  from "0.prems"(2) s have so: "sorted_wrt (<) vs" by simp
  from seekTo_Leaf[OF so, of v] obtain i where
    sk: "seekTo (Leaf vs) (Some v) False = (i, i < length vs)" and
    below: "\<forall>k<i. vs ! k < v" and at: "i < length vs \<longrightarrow> v \<le> vs ! i" by auto
  have c: "newCursorAtFrom ps s (Some v) False False = (s, i) # ps"
    using s sk by (subst newCursorAtFrom.simps) (simp add: Let_def)
  show ?case
  proof (cases "i < length vs")
    case True
    with at have "\<exists>x \<in> set vs. v \<le> x" by (auto intro: nth_mem)
    moreover from hd_dropWhile_nth[of i "\<lambda>x. x < v" vs] below True at
    have "hd (dropWhile (\<lambda>x. x < v) vs) = vs ! i" by (simp add: not_less)
    ultimately show ?thesis using c s True by simp
  next
    case False
    have "\<not> (\<exists>x \<in> set vs. v \<le> x)"
    proof
      assume "\<exists>x \<in> set vs. v \<le> x"
      then obtain j where "j < length vs" "v \<le> vs ! j" by (auto simp: in_set_conv_nth)
      moreover from seekTo_Leaf[OF so, of v] sk False have "\<forall>k < length vs. vs ! k < v"
        by auto
      ultimately show False by (auto simp: not_less[symmetric])
    qed
    with c s False show ?thesis by simp
  qed
next
  case (Suc n)
  from wfSeq_Suc[OF Suc.prems(1)] obtain ts where s: "s = Meta ts" and ne: "ts \<noteq> []"
    and w: "\<forall>mt \<in> set ts. wfTuple n mt" by auto
  from Suc.prems(2) s have so: "sorted_wrt (<) (bufLeaves ts)" by (simp add: bufLeaves_def)
  from seekTo_Meta[OF w so, of v] obtain i where
    sk: "seekTo (Meta ts) (Some v) False = (i, i < length ts)" and il: "i \<le> length ts" and
    below: "\<forall>k<i. \<forall>x \<in> set (leaves (child (ts ! k))). x < v" and
    at: "i < length ts \<longrightarrow> v \<le> last (leaves (child (ts ! i)))" by auto
  show ?case
  proof (cases "i < length ts")
    case False
    with il have i: "i = length ts" by simp
    have c: "newCursorAtFrom ps s (Some v) False False = (s, i) # ps"
      using s sk False by (subst newCursorAtFrom.simps) (simp add: Let_def)
    have "\<not> (\<exists>x \<in> set (leaves s). v \<le> x)"
    proof
      assume "\<exists>x \<in> set (leaves s). v \<le> x"
      then obtain mt x where m: "mt \<in> set ts" and x: "x \<in> set (leaves (child mt))"
        and vx: "v \<le> x" using s by auto
      from m obtain k where "k < length ts" "mt = ts ! k"
        by (auto simp: in_set_conv_nth[of mt])
      with below i x have "x < v" by simp
      with vx show False by simp
    qed
    with c s i show ?thesis by simp
  next
    case True
    let ?cur = "(s, i) # ps"
    let ?cs = "child (ts ! i)"
    from True w have t: "wfTuple n (ts ! i)" by simp
    then have wc: "wfSeq n ?cs" and lc: "leaves ?cs \<noteq> []" by (simp_all add: wfTuple_def)
    have sc: "sorted_wrt (<) (leaves ?cs)" by (rule bufLeaves_sorted_child[OF so True])
    have g: "getChildSequence ?cur = Some ?cs" using s True by simp
    from sk s True have sk': "seekTo s (Some v) False = (i, True)" by simp
    have c: "newCursorAtFrom ps s (Some v) False False =
             newCursorAtFrom ?cur ?cs (Some v) False False"
      by (subst newCursorAtFrom.simps)
         (simp only: sk' g Let_def fst_conv snd_conv option.case simp_thms if_True if_False
            option.distinct)
    from at True lc have ex: "\<exists>x \<in> set (leaves ?cs). v \<le> x"
      by (auto intro: last_in_set)
    with Suc.IH[OF wc sc, of ?cur]
    have ih: "valid (newCursorAtFrom ?cur ?cs (Some v) False False)"
      "current (newCursorAtFrom ?cur ?cs (Some v) False False) =
         Inr (ValueItem (hd (dropWhile (\<lambda>x. x < v) (leaves ?cs))))" by simp_all
    have pre: "\<forall>x \<in> set (bufLeaves (take i ts)). x < v"
    proof
      fix x assume "x \<in> set (bufLeaves (take i ts))"
      then obtain mt where m: "mt \<in> set (take i ts)" and x: "x \<in> set (leaves (child mt))"
        by (auto simp: set_bufLeaves)
      from m True obtain k where "k < i" "mt = ts ! k"
        by (auto simp: in_set_conv_nth[of mt])
      with below x show "x < v" by simp
    qed
    from ex have dne: "dropWhile (\<lambda>x. x < v) (leaves ?cs) \<noteq> []"
      by (auto simp: dropWhile_eq_Nil_conv not_less[symmetric])
    from ex obtain y where y: "y \<in> set (leaves ?cs)" "\<not> y < v" by (auto simp: not_less)
    have "dropWhile (\<lambda>x. x < v) (bufLeaves ts) =
          dropWhile (\<lambda>x. x < v) (leaves ?cs) @ bufLeaves (drop (Suc i) ts)"
      using pre bufLeaves_split[OF True]
        dropWhile_append1[of y "leaves ?cs" "\<lambda>x. x < v" "bufLeaves (drop (Suc i) ts)", OF y]
      by (simp add: dropWhile_append2)
    with dne have "hd (dropWhile (\<lambda>x. x < v) (leaves s)) = hd (dropWhile (\<lambda>x. x < v) (leaves ?cs))"
      using s by (simp add: bufLeaves_def[symmetric] del: leaves.simps add: leaves_Meta)
    moreover from ex s True have "\<exists>x \<in> set (leaves s). v \<le> x"
      by (auto simp: in_set_conv_nth intro!: bexI[of _ "ts ! i"])
    ultimately show ?thesis using ih c by simp
  qed
qed

lemma hd_dropWhile_member:
  assumes "sorted_wrt (<) (xs :: 'a::linorder list)" and "\<exists>x \<in> set xs. v \<le> x"
  shows "hd (dropWhile (\<lambda>x. x < v) xs) = v \<longleftrightarrow> v \<in> set xs"
proof
  assume "hd (dropWhile (\<lambda>x. x < v) xs) = v"
  moreover from assms(2) have "dropWhile (\<lambda>x. x < v) xs \<noteq> []"
    by (auto simp: dropWhile_eq_Nil_conv not_less[symmetric])
  ultimately show "v \<in> set xs"
    by (metis hd_in_set set_dropWhileD)
next
  assume "v \<in> set xs"
  with assms(1) show "hd (dropWhile (\<lambda>x. x < v) xs) = v"
  proof (induction xs)
    case Nil
    then show ?case by simp
  next
    case (Cons y ys)
    then show ?case by (cases "y < v") auto
  qed
qed

lemma Has_wf:
  assumes w: "wfSeq n (seq s)" and so: "sorted_wrt (<) (leaves (seq s))"
  shows "Has s v = Inr (v \<in> set (leaves (seq s)))"
proof -
  let ?c = "newCursorAtValue (seq s) v False False False"
  have c: "?c = newCursorAtFrom [] (seq s) (Some v) False False"
    by (simp add: newCursorAtValue_def newCursorAt_def newOrderedKey_def)
  note sk = newCursorAtFrom_seek[OF w so, of v "[]"]
  show ?thesis
  proof (cases "\<exists>x \<in> set (leaves (seq s)). v \<le> x")
    case True
    with sk c have "valid ?c"
      "current ?c = Inr (ValueItem (hd (dropWhile (\<lambda>x. x < v) (leaves (seq s)))))"
      by simp_all
    with hd_dropWhile_member[OF so True] show ?thesis by (simp add: Has_def)
  next
    case False
    with sk c have "\<not> valid ?c" by simp
    moreover from False have "v \<notin> set (leaves (seq s))" by auto
    ultimately show ?thesis by (simp add: Has_def)
  qed
qed

section \<open>Properties of the constructors and the queries\<close>

lemma NewSet_example: "NewSet evenBoundary keyBoundary [5, 2, 7] = Inr exampleSet"
  by code_simp

lemma NewSet_empty: "NewSet lb mb [] = Inr (newSet (Leaf []))"
  by (simp add: NewSet_def buildSetData_def newEmptySetSequenceChunker_def Done_def
      createLeafSequence_def makeSetLeafChunkFn_def PanicIfFalse_def newSetLeafSequence_def
      newSet_def)

lemma wfSeq_exampleSet: "wfSeq 1 (seq exampleSet)"
  by (simp add: exampleSet_def newSet_def wfSeq.simps)

lemma leaves_exampleSet: "leaves (seq exampleSet) = [2, 5, 7]"
  by (simp add: exampleSet_def newSet_def)

lemma NewSet_wf:
  "\<exists>s n. NewSet lb mb V = Inr s \<and> wfSeq n (seq s) \<and>
         leaves (seq s) = sorted_list_of_set (set V) \<and> h s = 0"
  using NewSet_built[of lb mb V]
  by (auto simp: newSet_def buildSetData_sorted_list_of_set)

text \<open>
  Claim C4. \<^verbatim>\<open>At(idx)\<close> panics with the out-of-bounds error whenever \<open>idx \<ge> Len()\<close>;
  on a well-formed set and \<open>idx < Len()\<close> it returns the leaf item at the flattened
  position \<open>idx\<close>. On the set that \<^verbatim>\<open>NewSet\<close> builds from \<open>V\<close> this is the item at
  position \<open>idx\<close> of the ascending list of the distinct values of \<open>V\<close>. In particular
  \<^verbatim>\<open>NewSet().At(0)\<close> is out of bounds, \<^verbatim>\<open>NewSet().Len()\<close> is 0 and \<^verbatim>\<open>NewSet().Empty()\<close>
  holds.
\<close>

theorem At_out_of_bounds_or_item:
  "(idx \<ge> Len s \<longrightarrow> At s idx = Inl (OutOfBounds idx (Len s))) \<and>
   (wfSeq n (seq s) \<and> idx < Len s \<longrightarrow> At s idx = Inr (leaves (seq s) ! idx)) \<and>
   (\<exists>t. NewSet lb mb V = Inr t \<and> Len t = card (set V) \<and>
        At t idx = (if idx \<ge> card (set V) then Inl (OutOfBounds idx (card (set V)))
                    else Inr (sorted_list_of_set (set V) ! idx))) \<and>
   (\<exists>e. NewSet lb mb [] = Inr e \<and> At e 0 = Inl (OutOfBounds 0 0) \<and> Len e = 0 \<and> Empty e)"
proof (intro conjI)
  show "idx \<ge> Len s \<longrightarrow> At s idx = Inl (OutOfBounds idx (Len s))"
    by (simp add: At_def)
  show "wfSeq n (seq s) \<and> idx < Len s \<longrightarrow> At s idx = Inr (leaves (seq s) ! idx)"
    by (auto simp: At_wf)
  show "\<exists>t. NewSet lb mb V = Inr t \<and> Len t = card (set V) \<and>
        At t idx = (if idx \<ge> card (set V) then Inl (OutOfBounds idx (card (set V)))
                    else Inr (sorted_list_of_set (set V) ! idx))"
  proof -
    from NewSet_wf[of lb mb V] obtain t m where t: "NewSet lb mb V = Inr t"
      and w: "wfSeq m (seq t)" and l: "leaves (seq t) = sorted_list_of_set (set V)" by auto
    from Len_wf[OF w] l have "Len t = card (set V)" by simp
    with t At_wf[OF w, of idx] l show ?thesis by auto
  qed
  show "\<exists>e. NewSet lb mb [] = Inr e \<and> At e 0 = Inl (OutOfBounds 0 0) \<and> Len e = 0 \<and> Empty e"
    by (simp add: NewSet_empty At_def Len_def Empty_def newSet_def)
qed

theorem At_out_of_bounds_or_item_witness:
  "wfSeq 1 (seq exampleSet) \<and> Len exampleSet = 3 \<and> At exampleSet 1 = Inr 5 \<and>
   At exampleSet 3 = Inl (OutOfBounds 3 3)"
proof -
  have l: "Len exampleSet = 3" by (simp add: Len_def exampleSet_def newSet_def)
  from At_out_of_bounds_or_item
    [where s = exampleSet and idx = 1 and n = 1 and lb = evenBoundary and mb = keyBoundary
       and V = "[]"] wfSeq_exampleSet l
  have "At exampleSet 1 = Inr 5" by (simp add: leaves_exampleSet)
  moreover from At_out_of_bounds_or_item
    [where s = exampleSet and idx = 3 and n = 1 and lb = evenBoundary and mb = keyBoundary
       and V = "[]"] l
  have "At exampleSet 3 = Inl (OutOfBounds 3 3)" by simp
  ultimately show ?thesis using wfSeq_exampleSet l by simp
qed

text \<open>
  Claim C6. For every list of values \<open>V\<close> and every value \<open>v\<close>, \<^verbatim>\<open>NewSet(V)\<close> returns a
  set on which \<^verbatim>\<open>Has(v)\<close> is true if and only if \<open>v\<close> is among the values of \<open>V\<close>.
\<close>

theorem NewSet_Has_iff_member:
  "\<exists>s. NewSet lb mb V = Inr s \<and> (\<forall>v. Has s v = Inr (v \<in> set V))"
proof -
  from NewSet_wf[of lb mb V] obtain s n where s: "NewSet lb mb V = Inr s"
    and w: "wfSeq n (seq s)" and l: "leaves (seq s) = sorted_list_of_set (set V)" by auto
  from l have "sorted_wrt (<) (leaves (seq s))" by (simp add: strict_sorted_iff)
  from Has_wf[OF w this] l s show ?thesis by simp
qed

theorem NewSet_Has_iff_member_witness:
  "Has exampleSet 5 = Inr True \<and> Has exampleSet 6 = Inr False"
  using NewSet_Has_iff_member [of evenBoundary keyBoundary "[5, 2, 7]"]
  by (simp add: NewSet_example)

text \<open>
  Claim C7. Building a set from the same collection of values again gives a set with
  the same hash: the tree that \<^verbatim>\<open>NewSet\<close> builds, and with it the hash, depends only
  on the set of the values given, not on their order or on their repetitions.
\<close>

theorem NewSet_deterministic:
  "set V = set W \<longrightarrow>
     (\<exists>s t. NewSet lb mb V = Inr s \<and> NewSet lb mb W = Inr t \<and> seq s = seq t \<and>
            fst (Hash hf s) = fst (Hash hf t))"
proof
  assume e: "set V = set W"
  then have "buildSetData V = buildSetData W"
    by (simp add: buildSetData_sorted_list_of_set)
  then have "NewSet lb mb V = NewSet lb mb W" by (simp add: NewSet_def)
  with NewSet_built[of lb mb V] show
    "\<exists>s t. NewSet lb mb V = Inr s \<and> NewSet lb mb W = Inr t \<and> seq s = seq t \<and>
            fst (Hash hf s) = fst (Hash hf t)" by auto
qed

theorem NewSet_deterministic_witness:
  "set [5, 2, 7 :: nat] = set [7, 5, 5, 2] \<and>
   (\<exists>t. NewSet evenBoundary keyBoundary [7, 5, 5, 2] = Inr t \<and> seq exampleSet = seq t \<and>
        fst (Hash lengthHash exampleSet) = fst (Hash lengthHash t))"
proof -
  have e: "set [5, 2, 7 :: nat] = set [7, 5, 5, 2]" by auto
  from NewSet_deterministic
    [where V = "[5, 2, 7]" and W = "[7, 5, 5, 2]" and lb = evenBoundary and mb = keyBoundary
       and hf = lengthHash] e
  show ?thesis unfolding NewSet_example by blast
qed

text \<open>
  Claim C8. Rebuilding a set from the items of \<^verbatim>\<open>NewSet(V)\<close>, collected by \<^verbatim>\<open>IterAll\<close>,
  gives a set that \<^verbatim>\<open>Equals\<close> the original.
\<close>

theorem NewSet_round_trip:
  "\<exists>s vs t. NewSet lb mb V = Inr s \<and> IterAll s (\<lambda>v acc. acc @ [v]) [] = Inr vs \<and>
            NewSet lb mb vs = Inr t \<and> Equals hf t s"
proof -
  from NewSet_wf[of lb mb V] obtain s n where s: "NewSet lb mb V = Inr s"
    and w: "wfSeq n (seq s)" and l: "leaves (seq s) = sorted_list_of_set (set V)" by auto
  let ?vs = "sorted_list_of_set (set V)"
  have i: "IterAll s (\<lambda>v acc. acc @ [v]) [] = Inr ?vs"
    using l by (simp add: IterAll_wf[OF w] fold_collect)
  have "buildSetData ?vs = buildSetData V"
    by (simp add: buildSetData_sorted_list_of_set)
  then have "NewSet lb mb ?vs = NewSet lb mb V" by (simp add: NewSet_def)
  with s i show ?thesis by (auto simp: Equals_def)
qed

theorem NewSet_round_trip_witness:
  "\<exists>vs t. IterAll exampleSet (\<lambda>v acc. acc @ [v]) [] = Inr vs \<and>
          NewSet evenBoundary keyBoundary vs = Inr t \<and> Equals lengthHash t exampleSet"
  using NewSet_round_trip
    [where V = "[5, 2, 7]" and lb = evenBoundary and mb = keyBoundary and hf = lengthHash]
  unfolding NewSet_example by blast

text \<open>
  Claim C9. For every strictly ascending list of values, the set that
  \<^verbatim>\<open>NewStreamingSet\<close> sends once its input channel is closed \<^verbatim>\<open>Equals\<close> the set that
  \<^verbatim>\<open>NewSet\<close> builds from the same values; the two sets have the same tree.
\<close>

theorem NewStreamingSet_agrees_with_NewSet:
  "sorted_wrt (<) vs \<longrightarrow>
     (\<exists>s t. NewStreamingSet lb mb vrw (map Some vs) = Inr s \<and> NewSet lb mb vs = Inr t \<and>
            s = t \<and> Equals hf s t)"
proof
  assume "sorted_wrt (<) vs"
  from NewStreamingSet_ascending[OF this, of lb mb vrw] NewSet_built[of lb mb vs]
  show "\<exists>s t. NewStreamingSet lb mb vrw (map Some vs) = Inr s \<and> NewSet lb mb vs = Inr t \<and>
            s = t \<and> Equals hf s t"
    by (auto simp: Equals_def)
qed

theorem NewStreamingSet_agrees_with_NewSet_witness:
  "sorted_wrt (<) [1, 2, 3 :: nat] \<and>
   (\<exists>s. NewStreamingSet evenBoundary keyBoundary None [Some 1, Some 2, Some 3] = Inr s \<and>
        NewSet evenBoundary keyBoundary [1, 2, 3] = Inr s \<and> Equals lengthHash s s)"
proof -
  have a: "sorted_wrt (<) [1, 2, 3 :: nat]" by simp
  from NewStreamingSet_agrees_with_NewSet
    [of "[1, 2, 3]" evenBoundary keyBoundary None lengthHash] a
  show ?thesis by auto
qed

text \<open>
  Claim C10. On a well-formed set \<^verbatim>\<open>First()\<close> does not panic: it returns nil when the
  set is empty and the leaf item at index 0 otherwise, which is the least item when
  the leaf items are ascending. On the set that \<^verbatim>\<open>NewSet\<close> builds from \<open>V\<close> it returns
  nil when \<open>V\<close> is empty and the least value of \<open>V\<close> otherwise.
\<close>

theorem First_nil_or_least:
  "(wfSeq n (seq s) \<longrightarrow>
      First s = Inr (if Empty s then None else Some (leaves (seq s) ! 0))) \<and>
   (wfSeq n (seq s) \<and> sorted_wrt (<) (leaves (seq s)) \<and> \<not> Empty s \<longrightarrow>
      First s = Inr (Some (Min (set (leaves (seq s))))) \<and>
      At s 0 = Inr (Min (set (leaves (seq s))))) \<and>
   (\<exists>t. NewSet lb mb V = Inr t \<and>
        First t = Inr (if V = [] then None else Some (Min (set V))))"
proof -
  have p1: "wfSeq n (seq s) \<longrightarrow>
      First s = Inr (if Empty s then None else Some (leaves (seq s) ! 0))"
  proof
    assume w: "wfSeq n (seq s)"
    from Len_wf[OF w] have e: "Empty s \<longleftrightarrow> leaves (seq s) = []" by (simp add: Empty_def)
    show "First s = Inr (if Empty s then None else Some (leaves (seq s) ! 0))"
      using e by (cases "leaves (seq s)") (simp_all add: First_wf[OF w])
  qed
  have p2: "wfSeq n (seq s) \<and> sorted_wrt (<) (leaves (seq s)) \<and> \<not> Empty s \<longrightarrow>
      First s = Inr (Some (Min (set (leaves (seq s))))) \<and>
      At s 0 = Inr (Min (set (leaves (seq s))))"
  proof
    assume a: "wfSeq n (seq s) \<and> sorted_wrt (<) (leaves (seq s)) \<and> \<not> Empty s"
    then have w: "wfSeq n (seq s)" and so: "sorted_wrt (<) (leaves (seq s))" by simp_all
    from a Len_wf[OF w] obtain x xs where l: "leaves (seq s) = x # xs"
      by (cases "leaves (seq s)") (auto simp: Empty_def)
    with so have "\<forall>y \<in> set (leaves (seq s)). x \<le> y" by (auto intro: less_imp_le)
    with l have "Min (set (leaves (seq s))) = x" by (auto intro!: Min_eqI)
    moreover from l have "First s = Inr (Some x)" by (simp add: First_wf[OF w])
    moreover from l Len_wf[OF w] have "At s 0 = Inr x" by (simp add: At_wf[OF w])
    ultimately show "First s = Inr (Some (Min (set (leaves (seq s))))) \<and>
        At s 0 = Inr (Min (set (leaves (seq s))))" by simp
  qed
  have p3: "\<exists>t. NewSet lb mb V = Inr t \<and>
        First t = Inr (if V = [] then None else Some (Min (set V)))"
  proof -
    from NewSet_wf[of lb mb V] obtain t m where t: "NewSet lb mb V = Inr t"
      and w: "wfSeq m (seq t)" and l: "leaves (seq t) = sorted_list_of_set (set V)" by auto
    show ?thesis
    proof (cases "V = []")
      case True
      with t l show ?thesis by (simp add: First_wf[OF w])
    next
      case False
      then obtain x xs where c: "sorted_list_of_set (set V) = x # xs"
        by (cases "sorted_list_of_set (set V)") auto
      have "sorted_wrt (<) (sorted_list_of_set (set V))" by (simp add: strict_sorted_iff)
      with c have "\<forall>y \<in> set (x # xs). x \<le> y" by (auto intro: less_imp_le)
      moreover have "set (x # xs) = set V"
        using c by (metis set_sorted_list_of_set List.finite_set)
      ultimately have "Min (set V) = x" by (auto intro!: Min_eqI)
      with t l c False show ?thesis by (simp add: First_wf[OF w])
    qed
  qed
  from p1 p2 p3 show ?thesis by blast
qed

theorem First_nil_or_least_witness:
  "wfSeq 1 (seq exampleSet) \<and> sorted_wrt (<) (leaves (seq exampleSet)) \<and> \<not> Empty exampleSet \<and>
   First exampleSet = Inr (Some 2) \<and> At exampleSet 0 = Inr 2 \<and>
   wfSeq 0 (seq (newSet (Leaf ([] :: nat list)))) \<and>
   First (newSet (Leaf ([] :: nat list))) = Inr None"
proof -
  have e: "\<not> Empty exampleSet" by (simp add: Empty_def Len_def exampleSet_def newSet_def)
  have so: "sorted_wrt (<) (leaves (seq exampleSet))" by (simp add: leaves_exampleSet)
  have m: "Min (set (leaves (seq exampleSet))) = 2" by (simp add: leaves_exampleSet)
  have w0: "wfSeq 0 (seq (newSet (Leaf ([] :: nat list))))" by (simp add: newSet_def)
  have e0: "Empty (newSet (Leaf ([] :: nat list)))" by (simp add: Empty_def Len_def newSet_def)
  from First_nil_or_least
    [where n = 1 and s = exampleSet and lb = evenBoundary and mb = keyBoundary and V = "[]"]
    wfSeq_exampleSet so e m
  have "First exampleSet = Inr (Some 2) \<and> At exampleSet 0 = Inr 2"
    by (simp add: leaves_exampleSet)
  moreover from First_nil_or_least
    [where n = 0 and s = "newSet (Leaf ([] :: nat list))" and lb = evenBoundary
       and mb = keyBoundary and V = "[]"] w0 e0
  have "First (newSet (Leaf ([] :: nat list))) = Inr None" by simp
  ultimately show ?thesis using wfSeq_exampleSet so e w0 by simp
qed


section \<open>The ordering check of the streaming constructor\<close>

lemma leafChunkLoop_error: "leafChunkLoop lastValue items setData = Inl e \<Longrightarrow> e = ContractViolation"
  by (induction items arbitrary: lastValue setData)
     (auto simp: PanicIfFalse_def split: if_splits sum.splits)

lemma metaChunkLoop_error: "metaChunkLoop lastKey items = Inl e \<Longrightarrow> e = ContractViolation"
  by (induction items arbitrary: lastKey) (auto simp: PanicIfFalse_def split: if_splits sum.splits)

lemma createLeafSequence_error: "createLeafSequence vr items = Inl e \<Longrightarrow> e = ContractViolation"
  by (auto simp: createLeafSequence_def makeSetLeafChunkFn_def PanicIfFalse_def
      dest: leafChunkLoop_error split: sum.splits if_splits)

lemma createMetaSequence_error:
  "createMetaSequence vr level items = Inl e \<Longrightarrow> e = ContractViolation"
  by (auto simp: createMetaSequence_def newOrderedMetaSequenceChunkFn_def
      dest: metaChunkLoop_error split: sum.splits)

lemma appendMeta_error: "appendMeta mb vr level mt ps = Inl e \<Longrightarrow> e = ContractViolation"
  by (induction ps arbitrary: level mt)
     (auto simp: Let_def dest: createMetaSequence_error split: if_splits sum.splits)

lemma Append_error: "Append lb mb ch v = Inl e \<Longrightarrow> e = ContractViolation"
  by (auto simp: Append_def Let_def dest: createLeafSequence_error appendMeta_error
      split: if_splits sum.splits)

lemma streamLoop_nil:
  "None \<in> set vals \<Longrightarrow> streamLoop lb mb ch lastV vals = Inl ContractViolation"
proof (induction vals arbitrary: ch)
  case Nil
  then show ?case by simp
next
  case (Cons v vals)
  show ?case
  proof (cases v)
    case None
    then show ?thesis by (simp add: PanicIfTrue_def)
  next
    case (Some x)
    with Cons.prems have n: "None \<in> set vals" by simp
    show ?thesis
    proof (cases "streamLoop lb mb ch lastV (v # vals)")
      case (Inl e)
      with Some Cons.IH[OF n] show ?thesis
        by (auto simp: PanicIfTrue_def PanicIfFalse_def dest: Append_error
            split: if_splits sum.splits)
    next
      case (Inr ch')
      with Some Cons.IH[OF n] show ?thesis
        by (auto simp: PanicIfTrue_def PanicIfFalse_def split: if_splits sum.splits)
    qed
  qed
qed

lemma NewStreamingSet_nil:
  "None \<in> set vals \<Longrightarrow> NewStreamingSet lb mb vrw vals = Inl ContractViolation"
  by (simp add: NewStreamingSet_def streamLoop_nil)

lemma NewStreamingSet_unchecked:
  "NewStreamingSet lb mb vrw (map Some vs) =
     (case appendAll lb mb (newEmptySetSequenceChunker None None) vs of
        Inl e \<Rightarrow> Inl e
      | Inr ch \<Rightarrow> (case Done mb ch of Inl e \<Rightarrow> Inl e | Inr sq \<Rightarrow> Inr (newSet sq)))"
proof -
  let ?e = "newEmptySetSequenceChunker None None :: 'a sequenceChunker"
  have e: "newEmptySetSequenceChunker vrw vrw = ?e\<lparr>sc_vr := vrw, sc_vw := vrw\<rparr>"
    by (simp add: newEmptySetSequenceChunker_def)
  show ?thesis
    unfolding NewStreamingSet_def streamLoop_appendAll e appendAll_reader Let_def
    by (cases "appendAll lb mb ?e vs") (simp_all add: Done_reader)
qed

text \<open>A descent at a chunk boundary passes every check, whatever the boundary
  functions are, as long as a leaf chunk closes after the first value.\<close>

lemma NewStreamingSet_descent_at_boundary:
  assumes lb: "lb [a]" "\<not> lb [b]" "\<not> lb [b, c]" and ord: "b < a" "a < c"
  shows "NewStreamingSet lb mb vrw [Some a, Some b, Some c] =
           Inr (newSet (Meta [MetaTuple (Leaf [a]) (Some a) 1,
                              MetaTuple (Leaf [b, c]) (Some c) 2]))"
proof -
  let ?ra = "MetaTuple (Leaf [a]) (Some a) 1"
  let ?rb = "MetaTuple (Leaf [b, c]) (Some c) 2"
  let ?e = "newEmptySetSequenceChunker None None :: 'a sequenceChunker"
  from ord have bc: "b < c" by simp
  have la: "createLeafSequence None [a] = Inr (Leaf [a], ?ra)"
    using createLeafSequence_sorted[of "[a]" None] by simp
  have lbc: "createLeafSequence None [b, c] = Inr (Leaf [b, c], ?rb)"
    using createLeafSequence_sorted[of "[b, c]" None] bc by simp
  have a1: "appendAll lb mb ?e [a, b, c] =
            Inr (?e\<lparr>sc_current := [b, c], sc_parents := [[?ra]]\<rparr>)"
    using lb la by (simp add: Append_def newEmptySetSequenceChunker_def)
  have m: "createMetaSequence None 1 [?ra, ?rb] =
           Inr (Meta [?ra, ?rb], MetaTuple (Meta [?ra, ?rb]) (Some c) 3)"
    using ord by (simp add: createMetaSequence_def newOrderedMetaSequenceChunkFn_def
        PanicIfFalse_def newSet_def)
  have d: "Done mb (?e\<lparr>sc_current := [b, c], sc_parents := [[?ra]]\<rparr>) = Inr (Meta [?ra, ?rb])"
  proof (cases "mb [?ra, ?rb]")
    case True
    then show ?thesis
      using lbc m
      by (simp add: Done_def newEmptySetSequenceChunker_def doneMeta.simps)
  next
    case False
    then show ?thesis
      using lbc m
      by (simp add: Done_def newEmptySetSequenceChunker_def doneMeta.simps)
  qed
  have "NewStreamingSet lb mb vrw (map Some [a, b, c]) = Inr (newSet (Meta [?ra, ?rb]))"
    unfolding NewStreamingSet_unchecked a1 using d by simp
  then show ?thesis by simp
qed

text \<open>
  Claim C2, at the input where the code departs from it. The values 2, 1, 3 are sent
  in this order; the leaf chunk closes after the value 2, so that 2 and 1 are never
  in the same chunk, and the keys 2 and 3 of the two chunks ascend. No check fails:
  \<^verbatim>\<open>NewStreamingSet\<close> sends a set whose leaf items are 2, 1, 3.
\<close>

theorem NewStreamingSet_out_of_order_accepted:
  "NewStreamingSet evenBoundary keyBoundary vrw [Some 2, Some 1, Some 3] = Inr unorderedSet \<and>
   leaves (seq unorderedSet) = [2, 1, 3]"
proof -
  have "(case appendAll evenBoundary keyBoundary (newEmptySetSequenceChunker None None) [2, 1, 3] of
           Inl e \<Rightarrow> Inl e
         | Inr ch \<Rightarrow> (case Done keyBoundary ch of Inl e \<Rightarrow> Inl e | Inr sq \<Rightarrow> Inr (newSet sq))) =
        Inr unorderedSet"
    by code_simp
  with NewStreamingSet_unchecked[of evenBoundary keyBoundary vrw "[2, 1, 3]"]
  show ?thesis by (simp add: unorderedSet_def newSet_def)
qed

section \<open>Equality and the diff entry points\<close>

lemma Hash_valid: "hashCellValid hf s \<Longrightarrow> fst (Hash hf s) = getHash hf s"
  by (auto simp: hashCellValid_def Hash_def IsEmpty_def)

lemma Hash_fills_cell: "hashCellValid hf s \<Longrightarrow> hashCellValid hf (snd (Hash hf s))"
  by (auto simp: hashCellValid_def Hash_def IsEmpty_def getHash_def)

lemma hashCellValid_newSet: "hashCellValid hf (newSet sq)"
  by (simp add: hashCellValid_def newSet_def)

text \<open>
  Claim C3. \<^verbatim>\<open>s.Equals(t)\<close> holds if and only if the two results of \<^verbatim>\<open>Hash()\<close> are
  equal; for sets whose hash cells are valid these are the hashes of the contents of
  the two sets. The leaf items are not consulted: \<open>Equals\<close> depends on the two sets
  only through the hash function.
\<close>

theorem Equals_iff_hashes_equal:
  "(Equals hf s t \<longleftrightarrow> fst (Hash hf s) = fst (Hash hf t)) \<and>
   (hashCellValid hf s \<and> hashCellValid hf t \<longrightarrow>
      (Equals hf s t \<longleftrightarrow> getHash hf s = getHash hf t))"
  by (simp add: Equals_def Hash_valid)

theorem Equals_iff_hashes_equal_witness:
  "hashCellValid lengthHash (newSet (Leaf [1::nat])) \<and>
   hashCellValid lengthHash (newSet (Leaf [2::nat])) \<and>
   getHash lengthHash (newSet (Leaf [1::nat])) = getHash lengthHash (newSet (Leaf [2::nat])) \<and>
   Equals lengthHash (newSet (Leaf [1::nat])) (newSet (Leaf [2]))"
proof -
  have v1: "hashCellValid lengthHash (newSet (Leaf [1::nat]))"
    by (rule hashCellValid_newSet)
  have v2: "hashCellValid lengthHash (newSet (Leaf [2::nat]))"
    by (rule hashCellValid_newSet)
  have g: "getHash lengthHash (newSet (Leaf [1::nat])) = getHash lengthHash (newSet (Leaf [2::nat]))"
    by (simp add: getHash_def newSet_def lengthHash_def)
  from Equals_iff_hashes_equal [of lengthHash "newSet (Leaf [1::nat])" "newSet (Leaf [2])"]
    v1 v2 g
  show ?thesis by blast
qed

text \<open>
  Claim C5. When the two sets have equal hashes, each of \<^verbatim>\<open>Diff\<close>, \<^verbatim>\<open>DiffHybrid\<close> and
  \<^verbatim>\<open>DiffLeftRight\<close> sends no event, whatever the diff algorithm would send: the
  comparison of the hashes comes first and the algorithm is not run. A set has the
  hash of itself, so the diff of a set against itself sends no event.
\<close>

theorem Diff_equal_hashes_no_events:
  "(Equals hf s lst \<longrightarrow>
      Diff hf topDown s lst = [] \<and> DiffHybrid hf best s lst = [] \<and>
      DiffLeftRight hf leftRight s lst = []) \<and>
   Diff hf topDown s s = [] \<and> DiffHybrid hf best s s = [] \<and>
   DiffLeftRight hf leftRight s s = []"
  by (simp add: Diff_def DiffHybrid_def DiffLeftRight_def Equals_def)

theorem Diff_equal_hashes_no_events_witness:
  "Equals lengthHash (newSet (Leaf [1::nat])) (newSet (Leaf [2])) \<and>
   Diff lengthHash
     (\<lambda>a b. [ValueChanged DiffChangeRemoved 2, ValueChanged DiffChangeAdded 1])
     (newSet (Leaf [1::nat])) (newSet (Leaf [2])) = []"
proof -
  have e: "Equals lengthHash (newSet (Leaf [1::nat])) (newSet (Leaf [2]))"
    by (simp add: Equals_def Hash_def IsEmpty_def getHash_def newSet_def lengthHash_def)
  from Diff_equal_hashes_no_events
    [of lengthHash "newSet (Leaf [1::nat])" "newSet (Leaf [2])"
        "\<lambda>a b. [ValueChanged DiffChangeRemoved 2, ValueChanged DiffChangeAdded 1]"] e
  show ?thesis by blast
qed

end
